theory Spec2Isabelle
  imports Complex_Main "HOL-Library.Word"
begin

section \<open>Values\<close>

text \<open>
  The routines of \<^verbatim>\<open>misc.cpp\<close> work on Armadillo's \<^verbatim>\<open>vec\<close>, \<^verbatim>\<open>rowvec\<close> and
  \<^verbatim>\<open>mat\<close> of \<^verbatim>\<open>double\<close>. Throughout this development a \<^verbatim>\<open>double\<close> is an exact
  real number: rounding, overflow to infinity and NaN are not represented. Where a
  double operation has no real value (the logarithm of a number that is not positive)
  the model returns the error \<open>Not_a_number\<close> instead.

  A vector is the list of its entries. A matrix is Armadillo's own layout: the row
  count, the column count and the entries in column-major order.
\<close>

datatype error =
    Logic_error        \<comment> \<open>Armadillo's \<^verbatim>\<open>std::logic_error\<close>: sizes that do not fit, no elements\<close>
  | Division_by_zero   \<comment> \<open>C++ integer division by zero (undefined behaviour)\<close>
  | Singular           \<comment> \<open>\<^verbatim>\<open>solve\<close> finds no exact solution\<close>
  | Not_square         \<comment> \<open>\<^verbatim>\<open>solve\<close> on a matrix that is not square (least squares, not modelled)\<close>
  | Not_a_number       \<comment> \<open>the double result is NaN or infinite\<close>

type_synonym vec = "real list"

record mat =
  n_rows :: nat
  n_cols :: nat
  mem :: "real list"

subsection \<open>Vector primitives of the library\<close>

definition sum_vec :: "vec \<Rightarrow> real" where
  "sum_vec x = sum_list x"

definition max_vec :: "vec \<Rightarrow> error + real" where
  "max_vec x = (case x of [] \<Rightarrow> Inl Logic_error | v # vs \<Rightarrow> Inr (fold max vs v))"

definition fill :: "vec \<Rightarrow> real \<Rightarrow> vec" where
  "fill x v = replicate (length x) v"

definition div_scalar :: "vec \<Rightarrow> real \<Rightarrow> vec" where
  "div_scalar x s = map (\<lambda>v. v / s) x"

definition minus_scalar :: "vec \<Rightarrow> real \<Rightarrow> vec" where
  "minus_scalar x s = map (\<lambda>v. v - s) x"

definition exp_vec :: "vec \<Rightarrow> vec" where
  "exp_vec x = map exp x"

subsection \<open>Matrix primitives of the library\<close>

text \<open>
  \<open>elem A i j\<close> is Armadillo's unchecked access \<^verbatim>\<open>A.at(i,j)\<close>, the entry at offset
  \<open>i + j * n_rows\<close>; \<open>mk_mat m n f\<close> is the \<open>m\<close> by \<open>n\<close> matrix with entry \<open>f i j\<close> in row
  \<open>i\<close> and column \<open>j\<close>. A matrix is well formed when it holds \<open>n_rows * n_cols\<close>
  entries, as every Armadillo matrix does.
\<close>

definition elem :: "mat \<Rightarrow> nat \<Rightarrow> nat \<Rightarrow> real" where
  "elem A i j = mem A ! (i + j * n_rows A)"

definition mk_mat :: "nat \<Rightarrow> nat \<Rightarrow> (nat \<Rightarrow> nat \<Rightarrow> real) \<Rightarrow> mat" where
  "mk_mat m n f = \<lparr>n_rows = m, n_cols = n, mem = map (\<lambda>k. f (k mod m) (k div m)) [0..<m * n]\<rparr>"

definition wf_mat :: "mat \<Rightarrow> bool" where
  "wf_mat A \<longleftrightarrow> length (mem A) = n_rows A * n_cols A"

definition of_rows :: "nat \<Rightarrow> nat \<Rightarrow> real list list \<Rightarrow> mat" where
  "of_rows m n rs = mk_mat m n (\<lambda>i j. rs ! i ! j)"

text \<open>
  \<^verbatim>\<open>trans(A)\<close>, \<^verbatim>\<open>A * B\<close> (a logic error when the inner sizes differ) and
  \<^verbatim>\<open>diagmat(b)\<close>.
\<close>

definition trans_mat :: "mat \<Rightarrow> mat" where
  "trans_mat A = mk_mat (n_cols A) (n_rows A) (\<lambda>i j. elem A j i)"

definition mat_mult :: "mat \<Rightarrow> mat \<Rightarrow> error + mat" where
  "mat_mult A B =
     (if n_cols A \<noteq> n_rows B then Inl Logic_error
      else Inr (mk_mat (n_rows A) (n_cols B)
                  (\<lambda>i j. sum_list (map (\<lambda>k. elem A i k * elem B k j) [0..<n_cols A]))))"

definition diagmat :: "vec \<Rightarrow> mat" where
  "diagmat b = mk_mat (length b) (length b) (\<lambda>i j. if i = j then b ! i else 0)"

text \<open>
  \<^verbatim>\<open>A.each_col() %= c\<close> multiplies every column of \<open>A\<close> entry by entry with \<open>c\<close>; it
  is a logic error unless \<open>c\<close> has as many entries as \<open>A\<close> has rows.
\<close>

definition each_col_schur :: "mat \<Rightarrow> vec \<Rightarrow> error + mat" where
  "each_col_schur A c =
     (if length c \<noteq> n_rows A then Inl Logic_error
      else Inr (mk_mat (n_rows A) (n_cols A) (\<lambda>i j. elem A i j * c ! i)))"

subsection \<open>Linear systems\<close>

text \<open>
  \<^verbatim>\<open>solve(A, b)\<close> is the library's general solver: a logic error when \<open>A\<close> and \<open>b\<close>
  differ in their number of rows; for a square \<open>A\<close>, elimination with partial
  pivoting, as in LAPACK's \<^verbatim>\<open>dgesv\<close> (the library's shortcuts for triangular, banded
  and positive definite matrices return the same solution in exact arithmetic). At
  each step the equation whose leading coefficient is largest in
  magnitude (the first one, among equals) is exchanged with the first equation; if
  that coefficient is 0 the matrix is singular; otherwise the leading unknown is
  eliminated from the other equations, the smaller system is solved, and the leading
  unknown follows by substitution. An equation is the list of its coefficients with
  its right-hand side.
\<close>

type_synonym equation = "vec \<times> real"

definition dot :: "vec \<Rightarrow> vec \<Rightarrow> real" where
  "dot u v = sum_list (map2 (*) u v)"

definition row :: "mat \<Rightarrow> nat \<Rightarrow> vec" where
  "row A i = map (\<lambda>j. elem A i j) [0..<n_cols A]"

definition mat_vec :: "mat \<Rightarrow> vec \<Rightarrow> vec" where
  "mat_vec A v = map (\<lambda>i. dot (row A i) v) [0..<n_rows A]"

fun argmax_abs :: "vec \<Rightarrow> nat" where
  "argmax_abs (x # y # ys) =
     (let k = argmax_abs (y # ys) in if \<bar>(y # ys) ! k\<bar> \<le> \<bar>x\<bar> then 0 else Suc k)"
| "argmax_abs _ = 0"

definition swap_rows :: "'a list \<Rightarrow> nat \<Rightarrow> nat \<Rightarrow> 'a list" where
  "swap_rows es i j = es[i := es ! j, j := es ! i]"

definition eliminate :: "equation \<Rightarrow> equation \<Rightarrow> equation" where
  "eliminate p e =
     (let m = hd (fst e) / hd (fst p)
      in (map2 (\<lambda>a b. a - m * b) (tl (fst e)) (tl (fst p)), snd e - m * snd p))"

fun gauss :: "nat \<Rightarrow> equation list \<Rightarrow> error + vec" where
  "gauss 0 es = Inr []"
| "gauss (Suc n) es =
     (let es' = swap_rows es 0 (argmax_abs (map (\<lambda>e. hd (fst e)) es));
          p = hd es'
      in if hd (fst p) = 0 then Inl Singular
         else case gauss n (map (eliminate p) (tl es')) of
                Inl e \<Rightarrow> Inl e
              | Inr z \<Rightarrow> Inr ((snd p - dot (tl (fst p)) z) / hd (fst p) # z))"

definition solve :: "mat \<Rightarrow> vec \<Rightarrow> error + vec" where
  "solve A b =
     (if n_rows A \<noteq> length b then Inl Logic_error
      else if n_rows A \<noteq> n_cols A then Inl Not_square
      else gauss (n_cols A) (zip (map (row A) [0..<n_rows A]) b))"

text \<open>
  \<^verbatim>\<open>norm(z, 2)\<close>, \<^verbatim>\<open>A.diag()\<close>, \<^verbatim>\<open>s * x\<close> and \<^verbatim>\<open>log(x)\<close>. The logarithm of a double
  that is not positive is infinite or NaN.
\<close>

definition norm2 :: "vec \<Rightarrow> real" where
  "norm2 z = sqrt (sum_list (map (\<lambda>v. v * v) z))"

definition diag :: "mat \<Rightarrow> vec" where
  "diag A = map (\<lambda>i. elem A i i) [0..<min (n_rows A) (n_cols A)]"

definition times_scalar :: "real \<Rightarrow> vec \<Rightarrow> vec" where
  "times_scalar s x = map (\<lambda>v. s * v) x"

definition log_vec :: "vec \<Rightarrow> error + vec" where
  "log_vec x = (if list_all (\<lambda>v. 0 < v) x then Inr (map ln x) else Inl Not_a_number)"

text \<open>\<^verbatim>\<open>eye(n, n)\<close>, the identity matrix.\<close>

definition eye :: "nat \<Rightarrow> mat" where
  "eye n = mk_mat n n (\<lambda>i j. if i = j then 1 else 0)"


subsection \<open>C++ unsigned arithmetic\<close>

text \<open>
  \<^verbatim>\<open>unsigned int n = x.n_elem\<close> keeps the low 32 bits of the element count, and
  \<^verbatim>\<open>1/n\<close> is a division of unsigned integers: the literal \<^verbatim>\<open>1\<close> is converted to
  \<^verbatim>\<open>unsigned int\<close>, the quotient is truncated, and only then converted to
  \<^verbatim>\<open>double\<close> for \<^verbatim>\<open>fill\<close>.
\<close>

type_synonym uint = "32 word"

definition uint_div :: "uint \<Rightarrow> uint \<Rightarrow> error + uint" where
  "uint_div a b = (if b = 0 then Inl Division_by_zero else Inr (a div b))"

definition uint_to_double :: "uint \<Rightarrow> real" where
  "uint_to_double q = real (unat q)"

section \<open>The routines\<close>

subsection \<open>scale_rows\<close>

text \<open>
  \<^verbatim>\<open>vec c = b; A.each_col() %= c;\<close>
  Both parameters are references: the result is the pair of the values of \<^verbatim>\<open>A\<close> and
  \<^verbatim>\<open>b\<close> after the call.
\<close>

definition scale_rows :: "mat \<Rightarrow> vec \<Rightarrow> error + (mat \<times> vec)" where
  "scale_rows A b =
     (let c = b
      in case each_col_schur A c of
           Inl e \<Rightarrow> Inl e
         | Inr A' \<Rightarrow> Inr (A', b))"

subsection \<open>crossprod\<close>

text \<open>
  \<^verbatim>\<open>return trans(X) * X;\<close>
  The result is the returned matrix, paired with the value of the reference parameter
  \<^verbatim>\<open>X\<close> after the call.
\<close>

definition crossprod :: "mat \<Rightarrow> error + (mat \<times> mat)" where
  "crossprod X =
     (case mat_mult (trans_mat X) X of
        Inl e \<Rightarrow> Inl e
      | Inr M \<Rightarrow> Inr (M, X))"

subsection \<open>softmax\<close>

text \<open>
  \<^verbatim>\<open>rowvec y = exp(x - max(x)); y /= sum(y); return y;\<close>
\<close>

definition softmax :: "vec \<Rightarrow> error + vec" where
  "softmax x =
     (case max_vec x of
        Inl e \<Rightarrow> Inl e
      | Inr m \<Rightarrow>
          (let y = exp_vec (minus_scalar x m)
           in Inr (div_scalar y (sum_vec y))))"

subsection \<open>safenormalize\<close>

text \<open>
  \<^verbatim>\<open>unsigned int n = x.n_elem; if (sum(x) <= 0) x.fill(1/n); else x = x/sum(x);\<close>
  The result is the value of \<^verbatim>\<open>x\<close> after the call.
\<close>

definition safenormalize :: "vec \<Rightarrow> error + vec" where
  "safenormalize x =
     (let n = (of_nat (length x) :: uint)
      in if sum_vec x \<le> 0
         then (case uint_div 1 n of
                 Inl e \<Rightarrow> Inl e
               | Inr q \<Rightarrow> Inr (fill x (uint_to_double q)))
         else Inr (div_scalar x (sum_vec x)))"

subsection \<open>ldmvnorm\<close>

text \<open>
  \<^verbatim>\<open>double d = norm(solve(L,x),2); return -d*d/2 - sum(log(sqrt(2*M_PI)*L.diag()));\<close>
\<close>

definition ldmvnorm :: "vec \<Rightarrow> mat \<Rightarrow> error + real" where
  "ldmvnorm x L =
     (case solve L x of
        Inl e \<Rightarrow> Inl e
      | Inr z \<Rightarrow>
          (let d = norm2 z
           in case log_vec (times_scalar (sqrt (2 * pi)) (diag L)) of
                Inl e \<Rightarrow> Inl e
              | Inr l \<Rightarrow> Inr (- d * d / 2 - sum_vec l)))"

section \<open>Notions used in the statements\<close>

text \<open>
  A list of equations is a system in \<open>n\<close> unknowns when it has \<open>n\<close> equations of \<open>n\<close>
  coefficients each; it is regular when only the zero vector solves its homogeneous
  form.
\<close>

definition system :: "nat \<Rightarrow> equation list \<Rightarrow> bool" where
  "system n es \<longleftrightarrow> length es = n \<and> (\<forall>e \<in> set es. length (fst e) = n)"

definition regular :: "nat \<Rightarrow> equation list \<Rightarrow> bool" where
  "regular n es \<longleftrightarrow>
     (\<forall>v. length v = n \<longrightarrow> (\<forall>e \<in> set es. dot (fst e) v = 0) \<longrightarrow> v = replicate n 0)"

text \<open>
  A matrix is nonsingular when only the zero vector is mapped to zero. \<open>B\<close> is an
  inverse of \<open>A\<close> when both products are the identity. A matrix is lower triangular
  when every entry above the diagonal is 0.
\<close>

definition nonsingular :: "mat \<Rightarrow> bool" where
  "nonsingular A \<longleftrightarrow>
     (\<forall>v. length v = n_cols A \<longrightarrow> mat_vec A v = replicate (n_rows A) 0
          \<longrightarrow> v = replicate (n_cols A) 0)"

definition inverse_of :: "mat \<Rightarrow> mat \<Rightarrow> bool" where
  "inverse_of A B \<longleftrightarrow>
     wf_mat B \<and> mat_mult B A = Inr (eye (n_cols A)) \<and> mat_mult A B = Inr (eye (n_rows A))"

definition lower_triangular :: "mat \<Rightarrow> bool" where
  "lower_triangular A \<longleftrightarrow> (\<forall>i < n_rows A. \<forall>j < n_cols A. i < j \<longrightarrow> elem A i j = 0)"

definition unit_vec :: "nat \<Rightarrow> nat \<Rightarrow> vec" where
  "unit_vec n j = map (\<lambda>i. if i = j then 1 else 0) [0..<n]"

text \<open>
  The determinant, by expansion along the first column: \<open>minor f i\<close> drops row \<open>i\<close> and
  the first column of \<open>f\<close>. \<open>lower_rows l g\<close> has in row \<open>i\<close> the combination
  \<open>\<Sum>\<^sub>k\<^sub>\<le>\<^sub>i l i k * g k\<close> of the first rows of \<open>g\<close>, as the product of a lower triangular
  matrix with \<open>g\<close> has.
\<close>

definition skip :: "nat \<Rightarrow> nat \<Rightarrow> nat" where
  "skip i r = (if r < i then r else Suc r)"

definition minor :: "(nat \<Rightarrow> nat \<Rightarrow> real) \<Rightarrow> nat \<Rightarrow> nat \<Rightarrow> nat \<Rightarrow> real" where
  "minor f i = (\<lambda>r c. f (skip i r) (Suc c))"

fun det_fun :: "nat \<Rightarrow> (nat \<Rightarrow> nat \<Rightarrow> real) \<Rightarrow> real" where
  "det_fun 0 f = 1"
| "det_fun (Suc n) f =
     sum_list (map (\<lambda>i. (- 1) ^ i * f i 0 * det_fun n (minor f i)) [0..<Suc n])"

definition det :: "mat \<Rightarrow> real" where
  "det A = det_fun (n_rows A) (elem A)"

definition lower_rows :: "(nat \<Rightarrow> nat \<Rightarrow> real) \<Rightarrow> (nat \<Rightarrow> nat \<Rightarrow> real) \<Rightarrow> nat \<Rightarrow> nat \<Rightarrow> real" where
  "lower_rows l g = (\<lambda>i c. \<Sum>k \<le> i. l i k * g k c)"

section \<open>Properties of safenormalize\<close>

lemma sum_list_div_scalar: "sum_list (map (\<lambda>v. v / s) x) = sum_list x / (s::real)"
  by (induction x) (simp_all add: add_divide_distrib)

lemma safenormalize_positive:
  "0 < sum_vec x \<Longrightarrow> safenormalize x = Inr (map (\<lambda>v. v / sum_list x) x)"
  by (simp add: safenormalize_def div_scalar_def sum_vec_def)

lemma uint_div_one:
  assumes "2 \<le> k" "k < 2 ^ 32"
  shows "uint_div 1 (of_nat k) = Inr 0"
proof -
  have u: "unat (of_nat k :: uint) = k"
    using assms(2) by (simp add: unat_of_nat)
  then have "(of_nat k :: uint) \<noteq> 0"
    using assms(1) by (metis not_numeral_le_zero unat_0)
  moreover have "1 div (of_nat k :: uint) = 0"
  proof -
    have "unat (1 div (of_nat k :: uint)) = unat (1 :: uint) div unat (of_nat k :: uint)"
      by (rule unat_div)
    also have "\<dots> = 1 div k" by (simp add: u)
    also have "\<dots> = 0" using assms(1) by simp
    finally show ?thesis by (simp add: unat_eq_0)
  qed
  ultimately show ?thesis by (simp add: uint_div_def)
qed

lemma safenormalize_fill_zero:
  "sum_list x \<le> 0 \<Longrightarrow> 2 \<le> length x \<Longrightarrow> length x < 2 ^ 32 \<Longrightarrow>
     safenormalize x = Inr (replicate (length x) 0)"
  by (simp add: safenormalize_def sum_vec_def uint_div_one fill_def uint_to_double_def)

text \<open>
  C1. The claim: when the entries of \<open>x\<close> sum to a value \<open>\<le> 0\<close>, every entry becomes
  \<open>1/n\<close>, so \<open>[0,0,0,0]\<close> becomes \<open>[0.25,0.25,0.25,0.25]\<close>. The code computes \<open>1/n\<close>
  on unsigned integers, where the quotient is 0 for every \<open>n \<ge> 2\<close>: the all-zero
  vector of length 4 stays \<open>[0,0,0,0]\<close>.
\<close>

theorem safenormalize_zeros4:
  "safenormalize [0, 0, 0, 0] = Inr [0, 0, 0, 0]
   \<and> safenormalize [0, 0, 0, 0] \<noteq> Inr [1/4, 1/4, 1/4, 1/4]"
  by (simp add: safenormalize_def sum_vec_def uint_div_def fill_def uint_to_double_def)

text \<open>
  C2. For a vector \<open>x\<close> of nonnegative entries whose sum is positive, safenormalize
  leaves \<open>x[i] / \<Sum>x\<close> at every index \<open>i\<close>: the length is kept, the new entries sum to
  1, and the proportions between entries are those of \<open>x\<close>. On \<open>[1,2,3,4]\<close> the result
  is \<open>[0.1, 0.2, 0.3, 0.4]\<close>.
\<close>

theorem safenormalize_normalizes:
  "((\<forall>v \<in> set x. 0 \<le> v) \<and> 0 < sum_list x \<longrightarrow>
      (\<exists>y. safenormalize x = Inr y
           \<and> length y = length x
           \<and> (\<forall>i < length x. y ! i = x ! i / sum_list x)
           \<and> sum_list y = 1
           \<and> (\<forall>i < length x. \<forall>j < length x. y ! i * x ! j = y ! j * x ! i)))
   \<and> safenormalize [1, 2, 3, 4] = Inr [1/10, 2/10, 3/10, 4/10]"
proof (intro conjI impI)
  assume pos: "(\<forall>v \<in> set x. 0 \<le> v) \<and> 0 < sum_list x"
  let ?y = "map (\<lambda>v. v / sum_list x) x"
  have r: "safenormalize x = Inr ?y"
    using pos by (simp add: safenormalize_positive sum_vec_def)
  have s: "sum_list ?y = 1"
    using pos by (simp add: sum_list_div_scalar)
  have p: "\<forall>i < length x. \<forall>j < length x. ?y ! i * x ! j = ?y ! j * x ! i"
    by simp
  show "\<exists>y. safenormalize x = Inr y
           \<and> length y = length x
           \<and> (\<forall>i < length x. y ! i = x ! i / sum_list x)
           \<and> sum_list y = 1
           \<and> (\<forall>i < length x. \<forall>j < length x. y ! i * x ! j = y ! j * x ! i)"
    using r s p by simp
next
  show "safenormalize [1, 2, 3, 4] = Inr [1/10, 2/10, 3/10, 4/10]"
    by (simp add: safenormalize_def sum_vec_def div_scalar_def)
qed

theorem safenormalize_normalizes_witness:
  "0 \<le> (1::real) \<and> 0 \<le> (3::real) \<and> 0 < sum_list [1, 3 :: real]
   \<and> safenormalize [1, 3] = Inr [1/4, 3/4]"
proof -
  have h: "(\<forall>v \<in> set [1, 3 :: real]. 0 \<le> v) \<and> 0 < sum_list [1, 3 :: real]" by simp
  from safenormalize_normalizes [of "[1, 3]"] h
  obtain y where y: "safenormalize [1, 3] = Inr y" "length y = length [1, 3 :: real]"
      "\<forall>i < length [1, 3 :: real]. y ! i = [1, 3] ! i / sum_list [1, 3]"
    by blast
  have "y ! 0 = 1/4" "y ! 1 = 3/4"
    using y(3) by simp_all
  moreover have "length y = 2" using y(2) by simp
  ultimately have "y = [1/4, 3/4]"
    by (cases y; cases "tl y"; cases "tl (tl y)") auto
  with y(1) h show ?thesis by simp
qed

text \<open>
  C9. The branch of safenormalize is chosen by the sum alone, in both directions.
  Whenever the entries of \<open>x\<close> sum to a value \<open>\<le> 0\<close>, whatever their signs and whether
  or not they are all zero, the result is that of \<^verbatim>\<open>x.fill(1/n)\<close> (or the failure of
  \<^verbatim>\<open>1/n\<close>) and no entry is divided by the sum: for a length from 2 to \<open>2\<^sup>3\<^sup>2 - 1\<close>
  every entry becomes 0. Whenever the sum is positive the result is that of the
  division, \<open>x[i] / \<Sum>x\<close> at every index, and nothing is filled.
\<close>

theorem safenormalize_branch:
  "(sum_list x \<le> 0 \<longrightarrow>
      safenormalize x =
        (case uint_div 1 (of_nat (length x)) of
           Inl e \<Rightarrow> Inl e
         | Inr q \<Rightarrow> Inr (fill x (uint_to_double q))))
   \<and> (sum_list x \<le> 0 \<and> 2 \<le> length x \<and> length x < 2 ^ 32 \<longrightarrow>
        safenormalize x = Inr (replicate (length x) 0))
   \<and> (\<not> sum_list x \<le> 0 \<longrightarrow>
        safenormalize x = Inr (map (\<lambda>v. v / sum_list x) x))"
proof (intro conjI impI)
  assume "sum_list x \<le> 0"
  then show "safenormalize x =
        (case uint_div 1 (of_nat (length x)) of
           Inl e \<Rightarrow> Inl e
         | Inr q \<Rightarrow> Inr (fill x (uint_to_double q)))"
    by (simp add: safenormalize_def sum_vec_def)
next
  assume "sum_list x \<le> 0 \<and> 2 \<le> length x \<and> length x < 2 ^ 32"
  then show "safenormalize x = Inr (replicate (length x) 0)"
    by (simp add: safenormalize_fill_zero)
next
  assume "\<not> sum_list x \<le> 0"
  then have "0 < sum_vec x" by (simp add: sum_vec_def)
  then show "safenormalize x = Inr (map (\<lambda>v. v / sum_list x) x)"
    by (rule safenormalize_positive)
qed

theorem safenormalize_branch_witness:
  "sum_list [1, -3 :: real] \<le> 0
   \<and> safenormalize [1, -3] = Inr [0, 0]
   \<and> safenormalize [1, -3] \<noteq> Inr (map (\<lambda>v. v / sum_list [1, -3]) [1, -3])
   \<and> 0 < sum_list [1, 3 :: real]
   \<and> safenormalize [1, 3] = Inr [1/4, 3/4]
   \<and> safenormalize [1, 3] \<noteq> Inr (fill [1, 3] (uint_to_double 0))"
  using safenormalize_branch [of "[1, -3]"] safenormalize_branch [of "[1, 3]"]
  by (simp add: uint_div_def fill_def uint_to_double_def)

section \<open>Properties of softmax\<close>

lemma max_vec_Max: "x \<noteq> [] \<Longrightarrow> max_vec x = Inr (Max (set x))"
  by (cases x) (simp_all add: max_vec_def flip: Max.set_eq_fold)

lemma softmax_nonempty:
  "x \<noteq> [] \<Longrightarrow>
     softmax x = Inr (map (\<lambda>v. exp (v - Max (set x)) / sum_list (map (\<lambda>u. exp (u - Max (set x))) x)) x)"
  by (simp add: softmax_def max_vec_Max exp_vec_def minus_scalar_def div_scalar_def sum_vec_def
      o_def)

lemma sum_list_exp_pos: "x \<noteq> [] \<Longrightarrow> 0 < sum_list (map (\<lambda>u. exp (u - m :: real)) x)"
  by (cases x) (auto intro!: add_pos_nonneg sum_list_nonneg)

lemma exp_le_sum_list:
  "v \<in> set x \<Longrightarrow> exp (v - m :: real) \<le> sum_list (map (\<lambda>u. exp (u - m)) x)"
  by (rule member_le_sum_list) auto

lemma fold_max_shift: "fold max (map (\<lambda>v. v + c) vs) (v + c) = fold max vs v + (c::real)"
  by (induction vs arbitrary: v) (simp_all flip: max_add_distrib_left)

lemma max_vec_shift:
  "max_vec (map (\<lambda>v. v + c) x) = (case max_vec x of Inl e \<Rightarrow> Inl e | Inr m \<Rightarrow> Inr (m + c))"
  by (cases x) (simp_all add: max_vec_def fold_max_shift)

text \<open>
  C3. For a vector \<open>x\<close> with at least one entry, softmax returns the vector \<open>y\<close> with
  \<open>y[i] = exp (x[i] - max x) / \<Sum>\<^sub>j exp (x[j] - max x)\<close> at every index, where \<open>max x\<close>
  is the greatest entry of \<open>x\<close>; the entries of \<open>y\<close> sum to 1 and each lies between
  0 and 1.
\<close>

theorem softmax_formula:
  "x \<noteq> [] \<Longrightarrow>
     \<exists>y. softmax x = Inr y
       \<and> length y = length x
       \<and> (\<forall>i < length x.
             y ! i = exp (x ! i - Max (set x)) / (\<Sum>j < length x. exp (x ! j - Max (set x))))
       \<and> sum_list y = 1
       \<and> (\<forall>v \<in> set y. 0 \<le> v \<and> v \<le> 1)"
proof -
  assume ne: "x \<noteq> []"
  define m where "m = Max (set x)"
  define s where "s = sum_list (map (\<lambda>u. exp (u - m)) x)"
  define y where "y = map (\<lambda>v. exp (v - m) / s) x"
  have r: "softmax x = Inr y"
    using ne by (simp add: softmax_nonempty y_def s_def m_def)
  have spos: "0 < s"
    using ne by (simp add: s_def sum_list_exp_pos)
  have s_sum: "s = (\<Sum>j < length x. exp (x ! j - m))"
    by (simp add: s_def sum_list_sum_nth atLeast0LessThan)
  have e: "\<forall>i < length x. y ! i = exp (x ! i - m) / (\<Sum>j < length x. exp (x ! j - m))"
    by (simp add: y_def s_sum)
  have "sum_list y = sum_list (map (\<lambda>u. exp (u - m)) x) / s"
    unfolding y_def using sum_list_div_scalar [of s "map (\<lambda>u. exp (u - m)) x"]
    by (simp add: o_def)
  then have one: "sum_list y = 1"
    using spos by (simp add: s_def)
  have rng: "\<forall>v \<in> set y. 0 \<le> v \<and> v \<le> 1"
  proof
    fix v assume "v \<in> set y"
    then obtain u where u: "u \<in> set x" "v = exp (u - m) / s"
      by (auto simp: y_def)
    have "exp (u - m) \<le> s"
      unfolding s_def using u(1) by (rule exp_le_sum_list)
    then show "0 \<le> v \<and> v \<le> 1"
      using spos u(2) by simp
  qed
  show ?thesis
    using r e one rng unfolding m_def by (intro exI [of _ y]) (simp add: y_def)
qed

theorem softmax_formula_witness:
  "[0, 0 :: real] \<noteq> [] \<and> softmax [0, 0] = Inr [1/2, 1/2]"
proof -
  from softmax_formula [of "[0, 0]"]
  obtain y where y: "softmax [0, 0] = Inr y" "length y = length [0, 0 :: real]"
      "\<forall>i < length [0, 0 :: real].
         y ! i = exp ([0, 0] ! i - Max (set [0, 0])) / (\<Sum>j < length [0, 0 :: real]. exp ([0, 0] ! j - Max (set [0, 0])))"
    by auto
  have "y ! 0 = 1/2" "y ! 1 = 1/2"
    using y(3) by (simp_all add: lessThan_Suc numeral_2_eq_2)
  moreover have "length y = 2" using y(2) by simp
  ultimately have "y = [1/2, 1/2]"
    by (cases y; cases "tl y"; cases "tl (tl y)") auto
  with y(1) show ?thesis by simp
qed

text \<open>
  C7. Adding the same constant \<open>c\<close> to every entry of a vector with at least one entry
  does not change its softmax.
\<close>

theorem softmax_shift_invariant:
  "x \<noteq> [] \<Longrightarrow> softmax (map (\<lambda>v. v + c) x) = softmax x"
proof -
  assume "x \<noteq> []"
  then obtain m where m: "max_vec x = Inr m"
    by (cases x) (simp_all add: max_vec_def)
  then have "max_vec (map (\<lambda>v. v + c) x) = Inr (m + c)"
    by (simp add: max_vec_shift)
  with m show ?thesis
    by (simp add: softmax_def exp_vec_def minus_scalar_def div_scalar_def sum_vec_def o_def)
qed

theorem softmax_shift_invariant_witness:
  "[1, 2 :: real] \<noteq> [] \<and> softmax (map (\<lambda>v. v + 5) [1, 2]) = softmax [1, 2]
   \<and> softmax [1, 2] = Inr [exp (-1) / (exp (-1) + 1), 1 / (exp (-1) + 1)]"
  using softmax_shift_invariant [of "[1, 2]" 5]
  by (simp add: softmax_def max_vec_def exp_vec_def minus_scalar_def div_scalar_def sum_vec_def)

section \<open>Properties of scale_rows and crossprod\<close>

lemma mk_mat_sel [simp]:
  "n_rows (mk_mat m n f) = m" "n_cols (mk_mat m n f) = n"
  "length (mem (mk_mat m n f)) = m * n"
  by (simp_all add: mk_mat_def)

lemma wf_mk_mat [simp]: "wf_mat (mk_mat m n f)"
  by (simp add: wf_mat_def)

lemma index_in_range:
  fixes i j m n :: nat
  assumes "i < m" "j < n"
  shows "i + j * m < m * n"
proof -
  have "i + j * m < m + j * m" using assms(1) by simp
  also have "\<dots> = m * Suc j" by simp
  also have "\<dots> \<le> m * n" using assms(2) by (intro mult_le_mono2) simp
  finally show ?thesis .
qed

lemma elem_mk_mat [simp]: "i < m \<Longrightarrow> j < n \<Longrightarrow> elem (mk_mat m n f) i j = f i j"
  using index_in_range [of i m j n] by (simp add: elem_def mk_mat_def)

lemma mk_mat_cong:
  assumes "\<And>i j. i < m \<Longrightarrow> j < n \<Longrightarrow> f i j = g i j"
  shows "mk_mat m n f = mk_mat m n g"
proof -
  have "f (k mod m) (k div m) = g (k mod m) (k div m)" if "k < m * n" for k
  proof -
    from that have "0 < m" by (cases m) simp_all
    moreover from that have "k div m < n"
      by (simp add: less_mult_imp_div_less mult.commute)
    ultimately show ?thesis by (simp add: assms)
  qed
  then show ?thesis by (simp add: mk_mat_def)
qed

lemma mat_eqI:
  assumes "wf_mat A" "wf_mat B" "n_rows A = n_rows B" "n_cols A = n_cols B"
    and "\<And>i j. i < n_rows A \<Longrightarrow> j < n_cols A \<Longrightarrow> elem A i j = elem B i j"
  shows "A = B"
proof -
  have "mem A = mem B"
  proof (rule nth_equalityI)
    show "length (mem A) = length (mem B)"
      using assms(1-4) by (simp add: wf_mat_def)
  next
    fix k assume "k < length (mem A)"
    then have k: "k < n_rows A * n_cols A" using assms(1) by (simp add: wf_mat_def)
    then have "0 < n_rows A" by (cases "n_rows A") simp_all
    then have "k mod n_rows A < n_rows A" by simp
    moreover from k have "k div n_rows A < n_cols A"
      by (simp add: less_mult_imp_div_less mult.commute)
    ultimately have "elem A (k mod n_rows A) (k div n_rows A) = elem B (k mod n_rows A) (k div n_rows A)"
      by (rule assms(5))
    then show "mem A ! k = mem B ! k"
      using assms(3) by (simp add: elem_def)
  qed
  with assms(3,4) show ?thesis by simp
qed

lemma sum_list_delta:
  "i < n \<Longrightarrow> sum_list (map (\<lambda>k. (if i = k then c else 0) * g k) [0..<n]) = c * (g i :: real)"
proof -
  assume "i < n"
  have "sum_list (map (\<lambda>k. (if i = k then c else 0) * g k) [0..<n])
        = (\<Sum>k \<in> {0..<n}. (if i = k then c else 0) * g k)"
    by (simp add: interv_sum_list_conv_sum_set_nat)
  also have "\<dots> = (\<Sum>k \<in> {0..<n}. if k = i then c * g k else 0)"
    by (intro sum.cong) auto
  also have "\<dots> = c * g i"
    using \<open>i < n\<close> by simp
  finally show ?thesis .
qed

text \<open>
  C5. For a well-formed \<open>m\<close> by \<open>n\<close> matrix \<open>A\<close> and a vector \<open>b\<close> of length \<open>m\<close>,
  scale_rows succeeds; afterwards \<open>A\<close> has the same shape, its entry in row \<open>i\<close> and
  column \<open>j\<close> is \<open>b[i]\<close> times the old one, which is the product \<open>diagmat b * A\<close>, and
  \<open>b\<close> is as before. With \<open>A = [[1,2],[3,4]]\<close> and \<open>b = [1,2]\<close> the new \<open>A\<close> is
  \<open>[[1,2],[6,8]]\<close>.
\<close>

theorem scale_rows_diag:
  "(wf_mat A \<and> length b = n_rows A \<longrightarrow>
      (\<exists>A'. scale_rows A b = Inr (A', b)
         \<and> wf_mat A' \<and> n_rows A' = n_rows A \<and> n_cols A' = n_cols A
         \<and> (\<forall>i < n_rows A. \<forall>j < n_cols A. elem A' i j = b ! i * elem A i j)
         \<and> mat_mult (diagmat b) A = Inr A'))
   \<and> scale_rows (of_rows 2 2 [[1, 2], [3, 4]]) [1, 2]
       = Inr (of_rows 2 2 [[1, 2], [6, 8]], [1, 2])"
proof (intro conjI impI)
  assume h: "wf_mat A \<and> length b = n_rows A"
  define A' where "A' = mk_mat (n_rows A) (n_cols A) (\<lambda>i j. elem A i j * b ! i)"
  have r: "scale_rows A b = Inr (A', b)"
    using h by (simp add: scale_rows_def each_col_schur_def A'_def)
  have e: "\<forall>i < n_rows A. \<forall>j < n_cols A. elem A' i j = b ! i * elem A i j"
    by (simp add: A'_def)
  have "mk_mat (n_rows A) (n_cols A)
          (\<lambda>i j. sum_list (map (\<lambda>k. elem (diagmat b) i k * elem A k j) [0..<n_rows A]))
        = A'"
    unfolding A'_def
  proof (rule mk_mat_cong)
    fix i j assume ij: "i < n_rows A" "j < n_cols A"
    have "sum_list (map (\<lambda>k. elem (diagmat b) i k * elem A k j) [0..<n_rows A])
          = sum_list (map (\<lambda>k. (if i = k then b ! i else 0) * elem A k j) [0..<n_rows A])"
      using h ij by (intro arg_cong [where f = sum_list] map_cong) (simp_all add: diagmat_def)
    also have "\<dots> = b ! i * elem A i j"
      using ij(1) by (rule sum_list_delta)
    finally show "sum_list (map (\<lambda>k. elem (diagmat b) i k * elem A k j) [0..<n_rows A])
          = elem A i j * b ! i"
      by simp
  qed
  then have d: "mat_mult (diagmat b) A = Inr A'"
    using h by (simp add: mat_mult_def diagmat_def)
  show "\<exists>A'. scale_rows A b = Inr (A', b)
         \<and> wf_mat A' \<and> n_rows A' = n_rows A \<and> n_cols A' = n_cols A
         \<and> (\<forall>i < n_rows A. \<forall>j < n_cols A. elem A' i j = b ! i * elem A i j)
         \<and> mat_mult (diagmat b) A = Inr A'"
    using r e d by (intro exI [of _ A']) (simp add: A'_def)
next
  show "scale_rows (of_rows 2 2 [[1, 2], [3, 4]]) [1, 2]
       = Inr (of_rows 2 2 [[1, 2], [6, 8]], [1, 2])"
    by (simp add: scale_rows_def each_col_schur_def of_rows_def mk_mat_def elem_def upt_conv_Cons)
qed

theorem scale_rows_diag_witness:
  "wf_mat (of_rows 2 2 [[1, 2], [3, 4]]) \<and> length [5, 7 :: real] = n_rows (of_rows 2 2 [[1, 2], [3, 4]])
   \<and> scale_rows (of_rows 2 2 [[1, 2], [3, 4]]) [5, 7] = Inr (of_rows 2 2 [[5, 10], [21, 28]], [5, 7])
   \<and> mat_mult (diagmat [5, 7]) (of_rows 2 2 [[1, 2], [3, 4]]) = Inr (of_rows 2 2 [[5, 10], [21, 28]])"
proof -
  let ?A = "of_rows 2 2 [[1, 2], [3, 4]]"
  have h: "wf_mat ?A \<and> length [5, 7 :: real] = n_rows ?A"
    by (simp add: of_rows_def)
  from scale_rows_diag [of ?A "[5, 7]"] h
  obtain A' where A': "scale_rows ?A [5, 7] = Inr (A', [5, 7])" "mat_mult (diagmat [5, 7]) ?A = Inr A'"
    by blast
  have "scale_rows ?A [5, 7] = Inr (of_rows 2 2 [[5, 10], [21, 28]], [5, 7])"
    by (simp add: scale_rows_def each_col_schur_def of_rows_def mk_mat_def elem_def upt_conv_Cons)
  with A' h show ?thesis by simp
qed

lemma crossprod_eq:
  "crossprod X = Inr (mk_mat (n_cols X) (n_cols X)
       (\<lambda>i j. sum_list (map (\<lambda>k. elem X k i * elem X k j) [0..<n_rows X])), X)"
proof -
  have "mk_mat (n_cols X) (n_cols X)
          (\<lambda>i j. sum_list (map (\<lambda>k. elem (trans_mat X) i k * elem X k j) [0..<n_rows X]))
        = mk_mat (n_cols X) (n_cols X)
          (\<lambda>i j. sum_list (map (\<lambda>k. elem X k i * elem X k j) [0..<n_rows X]))"
  proof (rule mk_mat_cong)
    fix i j assume "i < n_cols X" "j < n_cols X"
    then have "map (\<lambda>k. elem (trans_mat X) i k * elem X k j) [0..<n_rows X]
               = map (\<lambda>k. elem X k i * elem X k j) [0..<n_rows X]"
      by (intro map_cong) (simp_all add: trans_mat_def)
    then show "sum_list (map (\<lambda>k. elem (trans_mat X) i k * elem X k j) [0..<n_rows X])
               = sum_list (map (\<lambda>k. elem X k i * elem X k j) [0..<n_rows X])"
      by (rule arg_cong)
  qed
  then show ?thesis
    by (simp add: crossprod_def mat_mult_def) (simp add: trans_mat_def)
qed

lemma trans_mk_mat_sym:
  assumes "\<And>i j. i < n \<Longrightarrow> j < n \<Longrightarrow> g j i = g i j"
  shows "trans_mat (mk_mat n n g) = mk_mat n n g"
  unfolding trans_mat_def mk_mat_sel
  by (rule mk_mat_cong) (simp add: assms)

text \<open>
  C6. For every matrix \<open>X\<close> with \<open>m\<close> rows and \<open>n\<close> columns, crossprod returns the
  \<open>n\<close> by \<open>n\<close> matrix \<open>trans X * X\<close>, whose entry \<open>(i, j)\<close> is
  \<open>\<Sum>\<^sub>k X[k,i] * X[k,j]\<close>; \<open>X\<close> is as before, and the returned matrix is equal to its
  own transpose.
\<close>

theorem crossprod_symmetric:
  "\<exists>M. crossprod X = Inr (M, X)
     \<and> wf_mat M \<and> n_rows M = n_cols X \<and> n_cols M = n_cols X
     \<and> (\<forall>i < n_cols X. \<forall>j < n_cols X.
           elem M i j = (\<Sum>k < n_rows X. elem X k i * elem X k j))
     \<and> mat_mult (trans_mat X) X = Inr M
     \<and> trans_mat M = M"
proof -
  define M where "M = mk_mat (n_cols X) (n_cols X)
       (\<lambda>i j. sum_list (map (\<lambda>k. elem X k i * elem X k j) [0..<n_rows X]))"
  have r: "crossprod X = Inr (M, X)"
    by (simp add: crossprod_eq M_def)
  have e: "\<forall>i < n_cols X. \<forall>j < n_cols X.
           elem M i j = (\<Sum>k < n_rows X. elem X k i * elem X k j)"
    by (simp add: M_def interv_sum_list_conv_sum_set_nat atLeast0LessThan)
  have t: "trans_mat M = M"
    unfolding M_def by (rule trans_mk_mat_sym) (simp add: mult.commute)
  show ?thesis
    using r e t by (intro exI [of _ M]) (auto simp: M_def crossprod_def split: sum.splits)
qed

theorem crossprod_symmetric_witness:
  "crossprod (of_rows 2 2 [[1, 2], [3, 4]])
     = Inr (of_rows 2 2 [[10, 14], [14, 20]], of_rows 2 2 [[1, 2], [3, 4]])
   \<and> trans_mat (of_rows 2 2 [[10, 14], [14, 20]]) = of_rows 2 2 [[10, 14], [14, 20]]"
proof -
  have c: "crossprod (of_rows 2 2 [[1, 2], [3, 4]])
     = Inr (of_rows 2 2 [[10, 14], [14, 20]], of_rows 2 2 [[1, 2], [3, 4]])"
    by (simp add: crossprod_def mat_mult_def trans_mat_def of_rows_def mk_mat_def elem_def
        upt_conv_Cons)
  with crossprod_symmetric [of "of_rows 2 2 [[1, 2], [3, 4]]"] show ?thesis
    by auto
qed

section \<open>Elimination solves regular systems\<close>

lemma dot_Nil [simp]: "dot [] v = 0" "dot u [] = 0"
  by (simp_all add: dot_def)

lemma dot_Cons [simp]: "dot (a # as) (b # bs) = a * b + dot as bs"
  by (simp add: dot_def)

lemma dot_replicate_zero [simp]: "dot u (replicate n 0) = 0"
proof (induction u arbitrary: n)
  case Nil
  show ?case by simp
next
  case (Cons a u)
  then show ?case by (cases n) simp_all
qed

lemma dot_eliminate:
  "length as = length bs \<Longrightarrow>
     dot (map2 (\<lambda>a b. a - m * b) as bs) z = dot as z - m * dot bs z"
proof (induction as bs arbitrary: z rule: list_induct2)
  case Nil
  show ?case by simp
next
  case (Cons a as b bs)
  then show ?case by (cases z) (simp_all add: algebra_simps)
qed

lemma argmax_abs_less: "xs \<noteq> [] \<Longrightarrow> argmax_abs xs < length xs"
  by (induction xs rule: argmax_abs.induct) (auto simp: Let_def)

lemma argmax_abs_max: "x \<in> set xs \<Longrightarrow> \<bar>x\<bar> \<le> \<bar>xs ! argmax_abs xs\<bar>"
  by (induction xs rule: argmax_abs.induct) (auto simp: Let_def)

lemma pivot_split:
  assumes "system (Suc n) es"
  defines "es' \<equiv> swap_rows es 0 (argmax_abs (map (\<lambda>e. hd (fst e)) es))"
  shows "es' = hd es' # tl es'" "set es = insert (hd es') (set (tl es'))" "length (tl es') = n"
    "\<forall>e \<in> set es. \<bar>hd (fst e)\<bar> \<le> \<bar>hd (fst (hd es'))\<bar>"
proof -
  let ?hs = "map (\<lambda>e. hd (fst e)) es"
  let ?k = "argmax_abs ?hs"
  from assms(1) have len: "length es = Suc n" by (simp add: system_def)
  then have ne: "es \<noteq> []" by auto
  then have k: "?k < length es"
    using argmax_abs_less [of ?hs] by simp
  have len': "length es' = Suc n"
    by (simp add: es'_def swap_rows_def len)
  then show eq: "es' = hd es' # tl es'" by (cases es') simp_all
  have "set es' = set es"
    unfolding es'_def swap_rows_def using k ne by (intro set_swap) simp_all
  with eq show "set es = insert (hd es') (set (tl es'))"
    by (metis list.simps(15))
  show "length (tl es') = n" using len' by simp
  have "hd es' = es' ! 0" using len' by (cases es') simp_all
  also have "\<dots> = es ! ?k"
    using k ne by (cases "?k = 0") (simp_all add: es'_def swap_rows_def)
  finally have hd: "hd (fst (hd es')) = ?hs ! ?k" using k by simp
  show "\<forall>e \<in> set es. \<bar>hd (fst e)\<bar> \<le> \<bar>hd (fst (hd es'))\<bar>"
  proof
    fix e assume "e \<in> set es"
    then have "hd (fst e) \<in> set ?hs" by force
    then show "\<bar>hd (fst e)\<bar> \<le> \<bar>hd (fst (hd es'))\<bar>"
      unfolding hd by (rule argmax_abs_max)
  qed
qed

lemma system_eliminate:
  assumes "system (Suc n) es"
  defines "es' \<equiv> swap_rows es 0 (argmax_abs (map (\<lambda>e. hd (fst e)) es))"
  shows "system n (map (eliminate (hd es')) (tl es'))"
proof -
  note ps = pivot_split [OF assms(1), folded es'_def]
  have all: "\<forall>e \<in> set es. length (fst e) = Suc n"
    using assms(1) by (simp add: system_def)
  have "length (fst (eliminate (hd es') e)) = n" if "e \<in> set (tl es')" for e
  proof -
    have "length (fst e) = Suc n" "length (fst (hd es')) = Suc n"
      using all ps(2) that by auto
    then show ?thesis by (simp add: eliminate_def Let_def)
  qed
  then show ?thesis using ps(3) by (simp add: system_def)
qed

lemma dot_hd_tl:
  "length c = Suc n \<Longrightarrow> dot c (a # v) = hd c * a + dot (tl c) v"
  by (cases c) simp_all

lemma eliminate_dot:
  assumes "length (fst e) = Suc n" "length (fst p) = Suc n"
  shows "dot (fst (eliminate p e)) v
         = dot (tl (fst e)) v - hd (fst e) / hd (fst p) * dot (tl (fst p)) v"
  using assms dot_eliminate [of "tl (fst e)" "tl (fst p)" "hd (fst e) / hd (fst p)" v]
  by (simp add: eliminate_def Let_def)

lemma gauss_sound:
  "system n es \<Longrightarrow> gauss n es = Inr z \<Longrightarrow>
     length z = n \<and> (\<forall>e \<in> set es. dot (fst e) z = snd e)"
proof (induction n arbitrary: es z)
  case 0
  then show ?case by (simp add: system_def)
next
  case (Suc n)
  define es' where "es' = swap_rows es 0 (argmax_abs (map (\<lambda>e. hd (fst e)) es))"
  define p where "p = hd es'"
  define rest where "rest = map (eliminate p) (tl es')"
  note ps = pivot_split [OF Suc.prems(1), folded es'_def, folded p_def]
  have sys: "system n rest"
    unfolding rest_def p_def es'_def using Suc.prems(1) by (rule system_eliminate)
  have all: "\<forall>e \<in> set es. length (fst e) = Suc n"
    using Suc.prems(1) by (simp add: system_def)
  then have lp: "length (fst p) = Suc n" using ps(2) by simp
  from Suc.prems(2) have nz: "hd (fst p) \<noteq> 0"
    by (auto simp: Let_def es'_def p_def split: if_splits)
  from Suc.prems(2) nz obtain z' where z': "gauss n rest = Inr z'"
    and z: "z = (snd p - dot (tl (fst p)) z') / hd (fst p) # z'"
    by (auto simp: Let_def es'_def p_def rest_def split: sum.splits)
  from Suc.IH [OF sys z'] have lz': "length z' = n"
    and sat': "\<forall>e \<in> set rest. dot (fst e) z' = snd e"
    by simp_all
  have sat_p: "dot (fst p) z = snd p"
    using lp nz by (simp add: z dot_hd_tl)
  have sat_e: "dot (fst e) z = snd e" if "e \<in> set (tl es')" for e
  proof -
    have le: "length (fst e) = Suc n" using all ps(2) that by simp
    have "eliminate p e \<in> set rest" using that by (simp add: rest_def)
    with sat' have "dot (fst (eliminate p e)) z' = snd (eliminate p e)" by simp
    then have "dot (tl (fst e)) z' - hd (fst e) / hd (fst p) * dot (tl (fst p)) z'
               = snd e - hd (fst e) / hd (fst p) * snd p"
      using eliminate_dot [OF le lp] by (simp add: eliminate_def Let_def)
    then show ?thesis
      using le nz by (simp add: z dot_hd_tl field_simps)
  qed
  show ?case
    using lz' sat_p sat_e ps(2) by (auto simp: z)
qed

lemma gauss_complete:
  "system n es \<Longrightarrow> regular n es \<Longrightarrow> \<exists>z. gauss n es = Inr z"
proof (induction n arbitrary: es)
  case 0
  show ?case by simp
next
  case (Suc n)
  define es' where "es' = swap_rows es 0 (argmax_abs (map (\<lambda>e. hd (fst e)) es))"
  define p where "p = hd es'"
  define rest where "rest = map (eliminate p) (tl es')"
  note ps = pivot_split [OF Suc.prems(1), folded es'_def, folded p_def]
  have sys: "system n rest"
    unfolding rest_def p_def es'_def using Suc.prems(1) by (rule system_eliminate)
  have all: "\<forall>e \<in> set es. length (fst e) = Suc n"
    using Suc.prems(1) by (simp add: system_def)
  then have lp: "length (fst p) = Suc n" using ps(2) by simp
  have nz: "hd (fst p) \<noteq> 0"
  proof
    assume "hd (fst p) = 0"
    with ps(4) have z: "\<forall>e \<in> set es. hd (fst e) = 0" by simp
    have "\<forall>e \<in> set es. dot (fst e) (1 # replicate n 0) = 0"
      using z all by (simp add: dot_hd_tl)
    with Suc.prems(2) have "1 # replicate n 0 = replicate (Suc n) (0::real)"
      unfolding regular_def by (metis length_Cons length_replicate)
    then show False by simp
  qed
  have "regular n rest"
    unfolding regular_def
  proof (intro allI impI)
    fix v' :: vec
    assume lv: "length v' = n" and ker: "\<forall>e \<in> set rest. dot (fst e) v' = 0"
    define a where "a = - dot (tl (fst p)) v' / hd (fst p)"
    have kp: "dot (fst p) (a # v') = 0"
      using lp nz by (simp add: a_def dot_hd_tl)
    have ke: "dot (fst e) (a # v') = 0" if "e \<in> set (tl es')" for e
    proof -
      have le: "length (fst e) = Suc n" using all ps(2) that by simp
      have "eliminate p e \<in> set rest" using that by (simp add: rest_def)
      with ker have "dot (fst (eliminate p e)) v' = 0" by simp
      then have "dot (tl (fst e)) v' = hd (fst e) / hd (fst p) * dot (tl (fst p)) v'"
        using eliminate_dot [OF le lp, of v'] by simp
      then show ?thesis
        using le nz by (simp add: a_def dot_hd_tl field_simps)
    qed
    have "\<forall>e \<in> set es. dot (fst e) (a # v') = 0"
      using kp ke ps(2) by auto
    with Suc.prems(2) lv have "a # v' = replicate (Suc n) 0"
      unfolding regular_def by (metis length_Cons)
    then show "v' = replicate n 0" by simp
  qed
  with Suc.IH [OF sys] obtain z' where "gauss n rest = Inr z'" by blast
  with nz show ?case
    by (simp add: Let_def es'_def p_def rest_def)
qed


section \<open>The solver on nonsingular matrices\<close>

lemma dot_sum: "length u = length v \<Longrightarrow> dot u v = (\<Sum>i < length u. u ! i * v ! i)"
proof (induction u v rule: list_induct2)
  case Nil
  show ?case by simp
next
  case (Cons a u b v)
  have "(\<Sum>i < Suc (length u). (a # u) ! i * (b # v) ! i)
        = a * b + (\<Sum>i < length u. u ! i * v ! i)"
    by (subst sum.lessThan_Suc_shift) simp
  with Cons show ?case by simp
qed

lemma length_row [simp]: "length (row A i) = n_cols A"
  by (simp add: row_def)

lemma nth_row [simp]: "j < n_cols A \<Longrightarrow> row A i ! j = elem A i j"
  by (simp add: row_def)

lemma length_mat_vec [simp]: "length (mat_vec A v) = n_rows A"
  by (simp add: mat_vec_def)

lemma nth_mat_vec [simp]: "i < n_rows A \<Longrightarrow> mat_vec A v ! i = dot (row A i) v"
  by (simp add: mat_vec_def)

lemma mat_vec_sum:
  "i < n_rows A \<Longrightarrow> length v = n_cols A \<Longrightarrow>
     mat_vec A v ! i = (\<Sum>j < n_cols A. elem A i j * v ! j)"
  by (simp add: dot_sum)

lemma dot_diff:
  "length z = length z' \<Longrightarrow> dot u (map2 (-) z z') = dot u z - dot u z'"
proof (induction z z' arbitrary: u rule: list_induct2)
  case Nil
  show ?case by simp
next
  case (Cons a z b z')
  then show ?case by (cases u) (simp_all add: algebra_simps)
qed

lemma map2_diff_zero:
  "length z = length z' \<Longrightarrow> map2 (-) z z' = replicate (length z) (0::real) \<Longrightarrow> z = z'"
  by (induction z z' rule: list_induct2) simp_all

lemma system_zip:
  "n_cols A = n \<Longrightarrow> length b = n \<Longrightarrow> system n (zip (map (row A) [0..<n]) b)"
  by (auto simp: system_def dest!: set_zip_leftD)

lemma sat_zip:
  assumes "n_rows A = n" "length b = n"
  shows "(\<forall>e \<in> set (zip (map (row A) [0..<n]) b). dot (fst e) z = snd e)
         \<longleftrightarrow> mat_vec A z = b"
proof
  assume l: "\<forall>e \<in> set (zip (map (row A) [0..<n]) b). dot (fst e) z = snd e"
  show "mat_vec A z = b"
  proof (rule nth_equalityI)
    show "length (mat_vec A z) = length b" using assms by simp
  next
    fix i assume "i < length (mat_vec A z)"
    then have i: "i < n" using assms by simp
    then have "(row A i, b ! i) \<in> set (zip (map (row A) [0..<n]) b)"
      using assms by (auto simp: set_zip intro!: exI [of _ i])
    with l have "dot (row A i) z = b ! i" by force
    then show "mat_vec A z ! i = b ! i" using i assms by simp
  qed
next
  assume r: "mat_vec A z = b"
  show "\<forall>e \<in> set (zip (map (row A) [0..<n]) b). dot (fst e) z = snd e"
  proof
    fix e assume "e \<in> set (zip (map (row A) [0..<n]) b)"
    then obtain i where i: "i < n" "e = (row A i, b ! i)"
      using assms by (auto simp: set_zip)
    then show "dot (fst e) z = snd e"
      using assms r [symmetric] by simp
  qed
qed

lemma mat_vec_diff:
  "length z = length z' \<Longrightarrow>
     mat_vec A (map2 (-) z z') = map2 (-) (mat_vec A z) (mat_vec A z')"
  by (rule nth_equalityI) (simp_all add: dot_diff)

lemma nonsingular_unique:
  assumes "nonsingular A" "length z = n_cols A" "length z' = n_cols A"
    and "mat_vec A z = mat_vec A z'"
  shows "z = z'"
proof -
  have "mat_vec A (map2 (-) z z') = replicate (n_rows A) 0"
    using assms(2-4) by (simp add: mat_vec_diff) (simp add: list_eq_iff_nth_eq)
  with assms(1-3) have "map2 (-) z z' = replicate (n_cols A) 0"
    by (simp add: nonsingular_def)
  then have "map2 (-) z z' = replicate (length z) 0" using assms(2) by simp
  with assms(2,3) show ?thesis using map2_diff_zero [of z z'] by simp
qed

lemma solve_nonsingular:
  assumes "n_rows A = n" "n_cols A = n" "length b = n" "nonsingular A"
  shows "\<exists>z. solve A b = Inr z \<and> length z = n \<and> mat_vec A z = b"
proof -
  let ?es = "zip (map (row A) [0..<n]) b"
  have sys: "system n ?es" using assms(2,3) by (rule system_zip)
  have "regular n ?es"
    unfolding regular_def
  proof (intro allI impI)
    fix v :: vec
    assume lv: "length v = n" and "\<forall>e \<in> set ?es. dot (fst e) v = 0"
    then have "\<forall>e \<in> set (zip (map (row A) [0..<n]) (replicate n 0)). dot (fst e) v = snd e"
      using assms(3) by (auto simp: set_zip)
    then have "mat_vec A v = replicate n 0"
      using sat_zip [of A n "replicate n 0" v] assms(1) by simp
    with assms lv show "v = replicate n 0" by (simp add: nonsingular_def)
  qed
  with sys obtain z where z: "gauss n ?es = Inr z" using gauss_complete by blast
  from gauss_sound [OF sys z] have "length z = n" "mat_vec A z = b"
    using sat_zip [of A n b z] assms(1,3) by simp_all
  moreover have "solve A b = Inr z"
    using assms z by (simp add: solve_def)
  ultimately show ?thesis by blast
qed

lemma norm2_square: "- norm2 z * norm2 z / 2 = - (\<Sum>v\<leftarrow>z. v\<^sup>2) / 2"
proof -
  have "0 \<le> (\<Sum>v\<leftarrow>z. v * v)" by (rule sum_list_nonneg) auto
  then have "norm2 z * norm2 z = (\<Sum>v\<leftarrow>z. v * v)" by (simp add: norm2_def)
  then show ?thesis by (simp add: power2_eq_square)
qed

lemma log_vec_diag:
  assumes "n_rows L = n" "n_cols L = n" "\<forall>i < n. 0 < elem L i i"
  shows "log_vec (times_scalar (sqrt (2 * pi)) (diag L))
         = Inr (map (\<lambda>i. ln (sqrt (2 * pi) * elem L i i)) [0..<n])"
  using assms by (simp add: log_vec_def times_scalar_def diag_def list_all_iff o_def)

lemma ldmvnorm_value:
  assumes "n_rows L = n" "n_cols L = n" "length x = n" "nonsingular L"
    and "\<forall>i < n. 0 < elem L i i"
  shows "\<exists>z. solve L x = Inr z \<and> length z = n \<and> mat_vec L z = x
           \<and> ldmvnorm x L
               = Inr (- (\<Sum>v\<leftarrow>z. v\<^sup>2) / 2 - (\<Sum>i\<leftarrow>[0..<n]. ln (sqrt (2 * pi) * elem L i i)))"
proof -
  from solve_nonsingular [OF assms(1-4)]
  obtain z where z: "solve L x = Inr z" "length z = n" "mat_vec L z = x" by blast
  have "ldmvnorm x L
        = Inr (- norm2 z * norm2 z / 2 - (\<Sum>i\<leftarrow>[0..<n]. ln (sqrt (2 * pi) * elem L i i)))"
    using z(1) log_vec_diag [OF assms(1,2,5)]
    by (simp add: ldmvnorm_def Let_def sum_vec_def)
  then have "ldmvnorm x L
        = Inr (- (\<Sum>v\<leftarrow>z. v\<^sup>2) / 2 - (\<Sum>i\<leftarrow>[0..<n]. ln (sqrt (2 * pi) * elem L i i)))"
    by (simp only: norm2_square)
  with z show ?thesis by blast
qed

section \<open>Matrix products and inverses\<close>

lemma mat_mult_Inr:
  "mat_mult A B = Inr C \<longleftrightarrow>
     n_cols A = n_rows B \<and>
     C = mk_mat (n_rows A) (n_cols B)
           (\<lambda>i j. sum_list (map (\<lambda>k. elem A i k * elem B k j) [0..<n_cols A]))"
  by (auto simp: mat_mult_def)

lemma elem_mat_mult:
  assumes "mat_mult A B = Inr C" "i < n_rows A" "j < n_cols B"
  shows "elem C i j = (\<Sum>k < n_cols A. elem A i k * elem B k j)"
  using assms by (simp add: mat_mult_Inr interv_sum_list_conv_sum_set_nat atLeast0LessThan)

lemma mat_vec_mult:
  assumes "mat_mult A B = Inr C" "length v = n_cols B"
  shows "mat_vec C v = mat_vec A (mat_vec B v)"
proof (rule nth_equalityI)
  show "length (mat_vec C v) = length (mat_vec A (mat_vec B v))"
    using assms(1) by (simp add: mat_mult_Inr)
next
  fix i assume "i < length (mat_vec C v)"
  then have i: "i < n_rows A" using assms(1) by (simp add: mat_mult_Inr)
  have dims: "n_rows C = n_rows A" "n_cols C = n_cols B" "n_cols A = n_rows B"
    using assms(1) by (simp_all add: mat_mult_Inr)
  have "mat_vec C v ! i = (\<Sum>j < n_cols B. elem C i j * v ! j)"
    using i dims assms(2) mat_vec_sum [of i C v] by simp
  also have "\<dots> = (\<Sum>j < n_cols B. (\<Sum>k < n_cols A. elem A i k * elem B k j) * v ! j)"
    using i by (intro sum.cong refl) (simp add: elem_mat_mult [OF assms(1)])
  also have "\<dots> = (\<Sum>j < n_cols B. \<Sum>k < n_cols A. elem A i k * (elem B k j * v ! j))"
    by (simp add: sum_distrib_right mult.assoc)
  also have "\<dots> = (\<Sum>k < n_cols A. \<Sum>j < n_cols B. elem A i k * (elem B k j * v ! j))"
    by (rule sum.swap)
  also have "\<dots> = (\<Sum>k < n_cols A. elem A i k * (\<Sum>j < n_cols B. elem B k j * v ! j))"
    by (simp add: sum_distrib_left)
  also have "\<dots> = (\<Sum>k < n_cols A. elem A i k * mat_vec B v ! k)"
    using dims assms(2) by (intro sum.cong refl) (simp add: dot_sum)
  also have "\<dots> = mat_vec A (mat_vec B v) ! i"
    using i dims mat_vec_sum [of i A "mat_vec B v"] by simp
  finally show "mat_vec C v ! i = mat_vec A (mat_vec B v) ! i" .
qed

lemma mat_vec_eye: "length v = n \<Longrightarrow> mat_vec (eye n) v = v"
proof (rule nth_equalityI)
  show "length v = n \<Longrightarrow> length (mat_vec (eye n) v) = length v"
    by (simp add: eye_def)
next
  fix i assume lv: "length v = n" and "i < length (mat_vec (eye n) v)"
  then have i: "i < n" by (simp add: eye_def)
  have "mat_vec (eye n) v ! i = (\<Sum>j < n. elem (eye n) i j * v ! j)"
    using i lv mat_vec_sum [of i "eye n" v] by (simp add: eye_def)
  also have "\<dots> = (\<Sum>j < n. if j = i then v ! j else 0)"
    using i by (intro sum.cong refl) (simp add: eye_def)
  also have "\<dots> = v ! i"
    using i by simp
  finally show "mat_vec (eye n) v ! i = v ! i" .
qed

lemma mat_vec_zero: "mat_vec A (replicate n 0) = replicate (n_rows A) 0"
  by (rule nth_equalityI) simp_all

lemma inverse_nonsingular:
  assumes "inverse_of A B"
  shows "nonsingular A"
  unfolding nonsingular_def
proof (intro allI impI)
  fix v :: vec
  assume lv: "length v = n_cols A" and z: "mat_vec A v = replicate (n_rows A) 0"
  from assms have ba: "mat_mult B A = Inr (eye (n_cols A))"
    by (simp add: inverse_of_def)
  have "v = mat_vec (eye (n_cols A)) v"
    using lv by (simp add: mat_vec_eye)
  also have "\<dots> = mat_vec B (mat_vec A v)"
    using ba lv by (rule mat_vec_mult)
  also have "\<dots> = replicate (n_rows B) 0"
    by (simp add: z mat_vec_zero)
  also have "n_rows B = n_cols A"
    using ba by (simp add: mat_mult_Inr eye_def mk_mat_def)
  finally show "v = replicate (n_cols A) 0" .
qed

lemma inverse_solution:
  assumes "inverse_of A B" "length b = n_rows A"
  shows "mat_vec A (mat_vec B b) = b"
proof -
  from assms have ab: "mat_mult A B = Inr (eye (n_rows A))"
    by (simp add: inverse_of_def)
  then have "n_cols B = n_rows A"
    by (simp add: mat_mult_Inr eye_def mk_mat_def)
  with assms(2) have "mat_vec (eye (n_rows A)) b = mat_vec A (mat_vec B b)"
    by (intro mat_vec_mult [OF ab]) simp
  with assms(2) show ?thesis by (simp add: mat_vec_eye)
qed

lemma lower_triangular_nonsingular:
  assumes "n_rows L = n" "n_cols L = n" "lower_triangular L" "\<forall>i < n. elem L i i \<noteq> 0"
  shows "nonsingular L"
  unfolding nonsingular_def
proof (intro allI impI)
  fix v :: vec
  assume lv: "length v = n_cols L" and z: "mat_vec L v = replicate (n_rows L) 0"
  have "i < n \<Longrightarrow> v ! i = 0" for i
  proof (induction i rule: less_induct)
    case (less i)
    have "mat_vec L v ! i = (\<Sum>j < n. elem L i j * v ! j)"
      using less.prems lv assms(1,2) mat_vec_sum [of i L v] by simp
    also have "\<dots> = elem L i i * v ! i + (\<Sum>j \<in> {..<n} - {i}. elem L i j * v ! j)"
      using less.prems by (simp add: sum.remove)
    also have "(\<Sum>j \<in> {..<n} - {i}. elem L i j * v ! j) = 0"
    proof (rule sum.neutral, rule ballI)
      fix j assume j: "j \<in> {..<n} - {i}"
      show "elem L i j * v ! j = 0"
      proof (cases "j < i")
        case True
        with j less.IH show ?thesis by simp
      next
        case False
        with j have "i < j" by auto
        with j less.prems assms(1-3) have "elem L i j = 0"
          by (simp add: lower_triangular_def)
        then show ?thesis by simp
      qed
    qed
    finally have "mat_vec L v ! i = elem L i i * v ! i" by simp
    moreover have "mat_vec L v ! i = 0"
      using less.prems assms(1) by (simp only: z nth_replicate)
    ultimately show ?case using assms(4) less.prems by simp
  qed
  then show "v = replicate (n_cols L) 0"
    using lv assms(2) by (intro nth_equalityI) simp_all
qed

lemma length_unit_vec [simp]: "length (unit_vec n j) = n"
  by (simp add: unit_vec_def)

lemma nth_unit_vec [simp]: "i < n \<Longrightarrow> unit_vec n j ! i = (if i = j then 1 else 0)"
  by (simp add: unit_vec_def)

lemma mat_vec_unit:
  assumes "i < n_rows C" "j < n_cols C"
  shows "mat_vec C (unit_vec (n_cols C) j) ! i = elem C i j"
proof -
  have "mat_vec C (unit_vec (n_cols C) j) ! i
        = (\<Sum>k < n_cols C. elem C i k * unit_vec (n_cols C) j ! k)"
    using assms(1) mat_vec_sum [of i C "unit_vec (n_cols C) j"] by simp
  also have "\<dots> = (\<Sum>k < n_cols C. if k = j then elem C i k else 0)"
    by (intro sum.cong refl) simp
  also have "\<dots> = elem C i j"
    using assms(2) by simp
  finally show ?thesis .
qed

lemma nonsingular_inverse:
  assumes "n_rows A = n" "n_cols A = n" "nonsingular A"
  shows "\<exists>B. inverse_of A B"
proof -
  define col where "col j = (case solve A (unit_vec n j) of Inr z \<Rightarrow> z | Inl e \<Rightarrow> [])" for j
  have col: "length (col j) = n \<and> mat_vec A (col j) = unit_vec n j" for j
    using solve_nonsingular [OF assms(1,2) _ assms(3), of "unit_vec n j"]
    by (auto simp: col_def)
  define B where "B = mk_mat n n (\<lambda>i j. col j ! i)"
  define C where "C = mk_mat n n (\<lambda>i j. sum_list (map (\<lambda>k. elem B i k * elem A k j) [0..<n]))"
  have "mk_mat n n (\<lambda>i j. sum_list (map (\<lambda>k. elem A i k * elem B k j) [0..<n])) = eye n"
    unfolding eye_def
  proof (rule mk_mat_cong)
    fix i j assume ij: "i < n" "j < n"
    have "sum_list (map (\<lambda>k. elem A i k * elem B k j) [0..<n])
          = (\<Sum>k < n. elem A i k * elem B k j)"
      by (simp add: interv_sum_list_conv_sum_set_nat atLeast0LessThan)
    also have "\<dots> = (\<Sum>k < n. elem A i k * col j ! k)"
      using ij by (intro sum.cong refl) (simp add: B_def)
    also have "\<dots> = mat_vec A (col j) ! i"
      using ij assms(1,2) col [of j] mat_vec_sum [of i A "col j"] by simp
    also have "\<dots> = (if i = j then 1 else 0)"
      using ij col [of j] by simp
    finally show "sum_list (map (\<lambda>k. elem A i k * elem B k j) [0..<n])
                  = (if i = j then 1 else 0)" .
  qed
  then have AB: "mat_mult A B = Inr (eye n)"
    using assms(1,2) by (simp add: mat_mult_Inr B_def)
  have BA': "mat_mult B A = Inr C"
    using assms(1,2) by (simp add: mat_mult_Inr B_def C_def)
  have fix_C: "mat_vec C v = v" if lv: "length v = n" for v
  proof -
    have "mat_vec A (mat_vec C v) = mat_vec A (mat_vec B (mat_vec A v))"
      using mat_vec_mult [OF BA', of v] lv assms(2) by simp
    also have "\<dots> = mat_vec (eye n) (mat_vec A v)"
      using mat_vec_mult [OF AB, of "mat_vec A v"] assms(1) by (simp add: B_def)
    also have "\<dots> = mat_vec A v"
      using assms(1) by (simp add: mat_vec_eye)
    finally have "mat_vec A (mat_vec C v) = mat_vec A v" .
    moreover have "length (mat_vec C v) = n_cols A"
      by (simp add: C_def assms(2))
    moreover have "length v = n_cols A"
      by (simp add: lv assms(2))
    ultimately show ?thesis
      using assms(3) nonsingular_unique by blast
  qed
  have "C = eye n"
  proof (rule mat_eqI)
    show "wf_mat C" "wf_mat (eye n)" "n_rows C = n_rows (eye n)" "n_cols C = n_cols (eye n)"
      by (simp_all add: C_def eye_def)
  next
    fix i j assume "i < n_rows C" "j < n_cols C"
    then have ij: "i < n" "j < n" by (simp_all add: C_def)
    have "elem C i j = mat_vec C (unit_vec (n_cols C) j) ! i"
      using ij by (intro mat_vec_unit [symmetric]) (simp_all add: C_def)
    also have "n_cols C = n" by (simp add: C_def)
    also have "mat_vec C (unit_vec n j) = unit_vec n j"
      by (rule fix_C) simp
    finally show "elem C i j = elem (eye n) i j"
      using ij by (simp add: eye_def)
  qed
  with BA' have BA: "mat_mult B A = Inr (eye n)" by simp
  have "wf_mat B" by (simp add: B_def)
  with AB BA assms(1,2) have "inverse_of A B"
    by (simp add: inverse_of_def)
  then show ?thesis ..
qed

section \<open>Properties of ldmvnorm\<close>

lemma ldmvnorm_inverse:
  assumes "n_rows L = n" "n_cols L = n" "length x = n" "inverse_of L B"
    and "\<forall>i < n. 0 < elem L i i"
  shows "solve L x = Inr (mat_vec B x) \<and> mat_vec L (mat_vec B x) = x \<and>
     ldmvnorm x L
       = Inr (- (\<Sum>v\<leftarrow>mat_vec B x. v\<^sup>2) / 2
              - (\<Sum>i\<leftarrow>[0..<n]. ln (sqrt (2 * pi) * elem L i i)))"
proof -
  have ns: "nonsingular L" using assms(4) by (rule inverse_nonsingular)
  from ldmvnorm_value [OF assms(1-3) ns assms(5)]
  obtain z where z: "solve L x = Inr z" "length z = n" "mat_vec L z = x"
    "ldmvnorm x L
       = Inr (- (\<Sum>v\<leftarrow>z. v\<^sup>2) / 2 - (\<Sum>i\<leftarrow>[0..<n]. ln (sqrt (2 * pi) * elem L i i)))"
    by blast
  have sol: "mat_vec L (mat_vec B x) = x"
    using assms(1,3,4) by (intro inverse_solution) simp_all
  have lb: "length (mat_vec B x) = n_cols L"
    using assms(4) by (simp add: inverse_of_def mat_mult_Inr eye_def mk_mat_def)
  have lz: "length z = n_cols L"
    by (simp add: z(2) assms(2))
  have eq: "mat_vec L z = mat_vec L (mat_vec B x)"
    by (simp only: z(3) sol)
  have "z = mat_vec B x"
    using ns lz lb eq by (rule nonsingular_unique)
  with z(1,4) sol show ?thesis by (simp only: simp_thms)
qed

text \<open>
  C10. ldmvnorm does not use that \<open>L\<close> is triangular. For every \<open>n\<close> by \<open>n\<close> matrix \<open>L\<close>
  that has an inverse \<open>B\<close> and a positive diagonal, and every \<open>x\<close> of length \<open>n\<close>, the
  solver returns \<open>z = B x\<close>, the solution of \<open>L z = x\<close>, and ldmvnorm returns
  \<open>- \<Sum>\<^sub>i z\<^sub>i\<^sup>2 / 2 - \<Sum>\<^sub>i ln (sqrt (2 pi) * L\<^sub>i\<^sub>i)\<close>.
\<close>

theorem ldmvnorm_any_invertible:
  "n_rows L = n \<and> n_cols L = n \<and> length x = n \<and> inverse_of L B
     \<and> (\<forall>i < n. 0 < elem L i i) \<longrightarrow>
   solve L x = Inr (mat_vec B x) \<and> mat_vec L (mat_vec B x) = x \<and>
   ldmvnorm x L
     = Inr (- (\<Sum>v\<leftarrow>mat_vec B x. v\<^sup>2) / 2
            - (\<Sum>i\<leftarrow>[0..<n]. ln (sqrt (2 * pi) * elem L i i)))"
  using ldmvnorm_inverse by blast

lemma inverse_example:
  "inverse_of (of_rows 2 2 [[2, 1], [1, 1]]) (of_rows 2 2 [[1, -1], [-1, 2]])"
  by code_simp

theorem ldmvnorm_any_invertible_witness:
  "n_rows (of_rows 2 2 [[2, 1], [1, 1]]) = 2 \<and> n_cols (of_rows 2 2 [[2, 1], [1, 1]]) = 2
   \<and> length [1, 0 :: real] = 2
   \<and> inverse_of (of_rows 2 2 [[2, 1], [1, 1]]) (of_rows 2 2 [[1, -1], [-1, 2]])
   \<and> elem (of_rows 2 2 [[2, 1], [1, 1]]) 0 1 \<noteq> 0
   \<and> 0 < elem (of_rows 2 2 [[2, 1], [1, 1]]) 0 0
   \<and> 0 < elem (of_rows 2 2 [[2, 1], [1, 1]]) 1 1
   \<and> solve (of_rows 2 2 [[2, 1], [1, 1]]) [1, 0] = Inr [1, -1]
   \<and> ldmvnorm [1, 0] (of_rows 2 2 [[2, 1], [1, 1]])
       = Inr (- 1 - (ln (sqrt (2 * pi) * 2) + ln (sqrt (2 * pi))))"
proof -
  let ?L = "of_rows 2 2 [[2, 1], [1, 1]]"
  let ?B = "of_rows 2 2 [[1, -1], [-1, 2]]"
  have d: "n_rows ?L = 2" "n_cols ?L = 2" "length [1, 0 :: real] = 2"
    by (simp_all add: of_rows_def)
  have e: "elem ?L 0 0 = 2" "elem ?L 1 1 = 1" "elem ?L 0 1 = 1"
    by (simp_all add: of_rows_def)
  have p: "\<forall>i < 2. 0 < elem ?L i i"
    using e by (simp add: less_2_cases_iff)
  have b: "mat_vec ?B [1, 0] = [1, -1]"
    by code_simp
  from ldmvnorm_any_invertible [of ?L 2 "[1, 0]" ?B] d inverse_example p
  have "solve ?L [1, 0] = Inr (mat_vec ?B [1, 0])"
    "ldmvnorm [1, 0] ?L
     = Inr (- (\<Sum>v\<leftarrow>mat_vec ?B [1, 0]. v\<^sup>2) / 2
            - (\<Sum>i\<leftarrow>[0..<2]. ln (sqrt (2 * pi) * elem ?L i i)))"
    by blast+
  then show ?thesis
    using d e inverse_example by (simp add: b upt_conv_Cons)
qed

lemma ldmvnorm_identity2: "ldmvnorm [0, 0] (eye 2) = Inr (- ln (2 * pi))"
proof -
  have s: "solve (eye 2) [0, 0] = Inr [0, 0]" by code_simp
  have d: "diag (eye 2) = [1, 1]" by code_simp
  have "ln (sqrt (2 * pi)) + ln (sqrt (2 * pi)) = ln (2 * pi)"
    by (simp add: ln_sqrt)
  then show ?thesis
    by (simp add: ldmvnorm_def s d norm2_def times_scalar_def log_vec_def sum_vec_def)
qed

text \<open>
  C4. For every \<open>n \<ge> 1\<close>, every lower triangular \<open>n\<close> by \<open>n\<close> matrix \<open>L\<close> with a positive
  diagonal and every \<open>x\<close> of length \<open>n\<close>, \<open>L\<close> has an inverse, and with any inverse \<open>B\<close>
  of \<open>L\<close> ldmvnorm returns \<open>- \<Sum>\<^sub>i (B x)\<^sub>i\<^sup>2 / 2 - \<Sum>\<^sub>i ln (sqrt (2 pi) * L\<^sub>i\<^sub>i)\<close>. At
  \<open>x = [0,0]\<close> and the 2 by 2 identity the value is \<open>- ln (2 pi)\<close>.
\<close>

theorem ldmvnorm_cholesky:
  "(1 \<le> n \<and> n_rows L = n \<and> n_cols L = n \<and> length x = n \<and> lower_triangular L
      \<and> (\<forall>i < n. 0 < elem L i i) \<longrightarrow>
      (\<exists>B. inverse_of L B)
      \<and> (\<forall>B. inverse_of L B \<longrightarrow>
            ldmvnorm x L
              = Inr (- (\<Sum>v\<leftarrow>mat_vec B x. v\<^sup>2) / 2
                     - (\<Sum>i\<leftarrow>[0..<n]. ln (sqrt (2 * pi) * elem L i i)))))
   \<and> ldmvnorm [0, 0] (eye 2) = Inr (- ln (2 * pi))"
proof (intro conjI impI allI)
  assume h: "1 \<le> n \<and> n_rows L = n \<and> n_cols L = n \<and> length x = n \<and> lower_triangular L
      \<and> (\<forall>i < n. 0 < elem L i i)"
  then have "\<forall>i < n. elem L i i \<noteq> 0" by fastforce
  with h have "nonsingular L"
    by (intro lower_triangular_nonsingular [of L n]) simp_all
  with h show "\<exists>B. inverse_of L B"
    using nonsingular_inverse [of L n] by blast
next
  fix B
  assume h: "1 \<le> n \<and> n_rows L = n \<and> n_cols L = n \<and> length x = n \<and> lower_triangular L
      \<and> (\<forall>i < n. 0 < elem L i i)"
    and B: "inverse_of L B"
  then show "ldmvnorm x L
             = Inr (- (\<Sum>v\<leftarrow>mat_vec B x. v\<^sup>2) / 2
                    - (\<Sum>i\<leftarrow>[0..<n]. ln (sqrt (2 * pi) * elem L i i)))"
    using ldmvnorm_inverse [of L n x B] by blast
next
  show "ldmvnorm [0, 0] (eye 2) = Inr (- ln (2 * pi))"
    by (rule ldmvnorm_identity2)
qed

theorem ldmvnorm_cholesky_witness:
  "(1::nat) \<le> 2 \<and> n_rows (of_rows 2 2 [[2, 0], [1, 1]]) = 2
   \<and> n_cols (of_rows 2 2 [[2, 0], [1, 1]]) = 2 \<and> length [2, 3 :: real] = 2
   \<and> lower_triangular (of_rows 2 2 [[2, 0], [1, 1]])
   \<and> 0 < elem (of_rows 2 2 [[2, 0], [1, 1]]) 0 0
   \<and> 0 < elem (of_rows 2 2 [[2, 0], [1, 1]]) 1 1
   \<and> inverse_of (of_rows 2 2 [[2, 0], [1, 1]]) (of_rows 2 2 [[1/2, 0], [- (1/2), 1]])
   \<and> mat_vec (of_rows 2 2 [[1/2, 0], [- (1/2), 1]]) [2, 3] = [1, 2]
   \<and> ldmvnorm [2, 3] (of_rows 2 2 [[2, 0], [1, 1]])
       = Inr (- 5 / 2 - (ln (sqrt (2 * pi) * 2) + ln (sqrt (2 * pi))))"
proof -
  let ?L = "of_rows 2 2 [[2, 0], [1, 1]]"
  let ?B = "of_rows 2 2 [[1/2, 0], [- (1/2), 1]]"
  have d: "n_rows ?L = 2" "n_cols ?L = 2" "length [2, 3 :: real] = 2"
    by (simp_all add: of_rows_def)
  have e: "elem ?L 0 0 = 2" "elem ?L 1 1 = 1" "elem ?L 0 1 = 0"
    by (simp_all add: of_rows_def)
  have p: "\<forall>i < 2. 0 < elem ?L i i"
    using e by (simp add: less_2_cases_iff)
  have t: "lower_triangular ?L"
    using e d by (auto simp: lower_triangular_def less_2_cases_iff)
  have B: "inverse_of ?L ?B" by code_simp
  have z: "mat_vec ?B [2, 3] = [1, 2]" by code_simp
  from ldmvnorm_cholesky [of 2 ?L "[2, 3]"] d p t B
  have "ldmvnorm [2, 3] ?L
     = Inr (- (\<Sum>v\<leftarrow>mat_vec ?B [2, 3]. v\<^sup>2) / 2
            - (\<Sum>i\<leftarrow>[0..<2]. ln (sqrt (2 * pi) * elem ?L i i)))"
    by simp
  then have "ldmvnorm [2, 3] ?L
       = Inr (- 5 / 2 - (ln (sqrt (2 * pi) * 2) + ln (sqrt (2 * pi))))"
    using e by (simp add: z upt_conv_Cons)
  with d e t B z show ?thesis by simp
qed

section \<open>Determinants\<close>

lemma det_fun_Suc:
  "det_fun (Suc n) f = (\<Sum>i \<le> n. (- 1) ^ i * f i 0 * det_fun n (minor f i))"
proof -
  have "set [0..<Suc n] = {..n}" by auto
  then show ?thesis
    by (simp only: det_fun.simps interv_sum_list_conv_sum_set_nat)
qed

declare det_fun.simps(2) [simp del]

lemma det_fun_cong:
  "(\<And>r c. r < n \<Longrightarrow> c < n \<Longrightarrow> f r c = g r c) \<Longrightarrow> det_fun n f = det_fun n g"
proof (induction n arbitrary: f g)
  case 0
  show ?case by simp
next
  case (Suc n)
  have "det_fun n (minor f i) = det_fun n (minor g i)" if "i \<le> n" for i
    by (rule Suc.IH) (simp add: minor_def skip_def Suc.prems)
  then show ?case
    unfolding det_fun_Suc by (intro sum.cong refl) (simp add: Suc.prems)
qed

lemma skip_neq [simp]: "skip i r \<noteq> i"
  by (simp add: skip_def)

lemma minor_upd_same: "minor (f(r := h)) r = minor f r"
  by (simp add: minor_def fun_eq_iff)

lemma minor_upd_other:
  "i \<noteq> r \<Longrightarrow>
     minor (f(r := h)) i = (minor f i)((if r < i then r else r - 1) := (\<lambda>c. h (Suc c)))"
  by (auto simp: minor_def fun_eq_iff skip_def)

lemma det_fun_row_linear:
  "r < n \<Longrightarrow>
     det_fun n (f(r := (\<lambda>c. a * g c + b * h c)))
       = a * det_fun n (f(r := g)) + b * det_fun n (f(r := h))"
proof (induction n arbitrary: f r g h)
  case 0
  then show ?case by simp
next
  case (Suc n)
  let ?t = "\<lambda>k i. (- 1) ^ i * (f(r := k)) i 0 * det_fun n (minor (f(r := k)) i)"
  have "?t (\<lambda>c. a * g c + b * h c) i = a * ?t g i + b * ?t h i" if "i \<le> n" for i
  proof (cases "i = r")
    case True
    then show ?thesis by (simp add: minor_upd_same algebra_simps)
  next
    case False
    define r' where "r' = (if r < i then r else r - 1)"
    have "r' < n" using False that Suc.prems by (auto simp: r'_def)
    then have "det_fun n ((minor f i)(r' := (\<lambda>c. a * g (Suc c) + b * h (Suc c))))
          = a * det_fun n ((minor f i)(r' := (\<lambda>c. g (Suc c))))
            + b * det_fun n ((minor f i)(r' := (\<lambda>c. h (Suc c))))"
      by (rule Suc.IH)
    then show ?thesis
      using False by (simp add: minor_upd_other r'_def algebra_simps)
  qed
  then show ?case
    unfolding det_fun_Suc by (simp add: sum.distrib sum_distrib_left)
qed

lemma det_fun_row_add:
  "r < n \<Longrightarrow>
     det_fun n (f(r := (\<lambda>c. g c + h c))) = det_fun n (f(r := g)) + det_fun n (f(r := h))"
  using det_fun_row_linear [of r n f 1 g 1 h] by simp

lemma det_fun_adjacent_equal:
  "Suc r < n \<Longrightarrow> f r = f (Suc r) \<Longrightarrow> det_fun n f = 0"
proof (induction n arbitrary: f r)
  case 0
  then show ?case by simp
next
  case (Suc n)
  let ?t = "\<lambda>i. (- 1) ^ i * f i 0 * det_fun n (minor f i)"
  have zero: "?t i = 0" if "i \<le> n" "i \<noteq> r" "i \<noteq> Suc r" for i
  proof (cases "i < r")
    case True
    then obtain q where q: "r = Suc q" by (cases r) auto
    have "minor f i q = minor f i (Suc q)"
      using True q Suc.prems(2) by (simp add: minor_def skip_def)
    moreover have "Suc q < n" using q Suc.prems(1) by simp
    ultimately have "det_fun n (minor f i) = 0" by (rule Suc.IH [rotated])
    then show ?thesis by simp
  next
    case False
    with that have gt: "Suc r < i" by simp
    have "minor f i r = minor f i (Suc r)"
      using gt Suc.prems(2) by (simp add: minor_def skip_def)
    moreover have "Suc r < n" using gt that(1) by simp
    ultimately have "det_fun n (minor f i) = 0" by (rule Suc.IH [rotated])
    then show ?thesis by simp
  qed
  have "f (skip r k) = f (skip (Suc r) k)" for k
  proof -
    consider "k < r" | "k = r" | "r < k" by linarith
    then show ?thesis
      using Suc.prems(2) by cases (simp_all add: skip_def)
  qed
  then have m: "minor f r = minor f (Suc r)"
    by (simp add: minor_def)
  have pair: "?t r + ?t (Suc r) = 0"
    using Suc.prems(2) by (simp add: m)
  have "{..n} = {r, Suc r} \<union> ({..n} - {r, Suc r})"
    using Suc.prems(1) by auto
  then have "(\<Sum>i \<le> n. ?t i) = (\<Sum>i \<in> {r, Suc r} \<union> ({..n} - {r, Suc r}). ?t i)"
    by simp
  also have "\<dots> = (\<Sum>i \<in> {r, Suc r}. ?t i) + (\<Sum>i \<in> {..n} - {r, Suc r}. ?t i)"
    by (rule sum.union_disjoint) auto
  also have "(\<Sum>i \<in> {..n} - {r, Suc r}. ?t i) = 0"
  proof (rule sum.neutral, rule ballI)
    fix i assume "i \<in> {..n} - {r, Suc r}"
    then have "i \<le> n" "i \<noteq> r" "i \<noteq> Suc r" by auto
    then show "?t i = 0" by (rule zero)
  qed
  also have "(\<Sum>i \<in> {r, Suc r}. ?t i) = ?t r + ?t (Suc r)"
    by simp
  finally show ?case
    unfolding det_fun_Suc using pair by simp
qed

lemma det_fun_adjacent_swap:
  assumes "Suc r < n"
  shows "det_fun n (f(r := f (Suc r), Suc r := f r)) = - det_fun n f"
proof -
  define u where "u = f r"
  define v where "v = f (Suc r)"
  define F where "F a b = det_fun n (f(r := a, Suc r := b))" for a b
  have r: "r < n" using assms by simp
  have add1: "F (\<lambda>c. a c + a' c) b = F a b + F a' b" for a a' b
  proof -
    have "F k b = det_fun n ((f(Suc r := b))(r := k))" for k
      unfolding F_def by (simp add: fun_upd_twist)
    then show ?thesis
      using det_fun_row_add [OF r, of "f(Suc r := b)" a a'] by simp
  qed
  have add2: "F a (\<lambda>c. b c + b' c) = F a b + F a b'" for a b b'
    unfolding F_def using det_fun_row_add [OF assms, of "f(r := a)" b b'] by simp
  have eq0: "F a a = 0" for a
    unfolding F_def by (rule det_fun_adjacent_equal [OF assms]) simp
  have "F (\<lambda>c. u c + v c) (\<lambda>c. u c + v c) = F u v + F v u"
    by (simp add: add1 add2 eq0)
  then have "F u v + F v u = 0"
    by (simp add: eq0)
  moreover have "F u v = det_fun n f"
    by (simp add: F_def u_def v_def)
  moreover have "F v u = det_fun n (f(r := f (Suc r), Suc r := f r))"
    by (simp add: F_def u_def v_def)
  ultimately show ?thesis by simp
qed

lemma det_fun_equal_rows:
  "r < s \<Longrightarrow> s < n \<Longrightarrow> f r = f s \<Longrightarrow> det_fun n f = 0"
proof (induction "s - r" arbitrary: s f)
  case 0
  then show ?case by simp
next
  case (Suc d)
  show ?case
  proof (cases "s = Suc r")
    case True
    with Suc.prems show ?thesis
      using det_fun_adjacent_equal [of r n f] by simp
  next
    case False
    with Suc.prems(1) obtain q where q: "s = Suc q" "r < q"
      by (cases s) auto
    define f' where "f' = f(q := f (Suc q), Suc q := f q)"
    have "det_fun n f' = - det_fun n f"
      unfolding f'_def using Suc.prems(2) q(1) by (intro det_fun_adjacent_swap) simp
    moreover have "det_fun n f' = 0"
    proof (rule Suc.hyps(1) [of q f'])
      show "d = q - r" using Suc.hyps(2) q by simp
      show "r < q" by (rule q(2))
      show "q < n" using Suc.prems(2) q(1) by simp
      show "f' r = f' q" using q Suc.prems(3) by (simp add: f'_def)
    qed
    ultimately show ?thesis by simp
  qed
qed

lemma det_fun_two_equal_rows:
  assumes "r \<noteq> s" "r < n" "s < n" "f r = f s"
  shows "det_fun n f = 0"
proof (cases "r < s")
  case True
  then show ?thesis using assms by (intro det_fun_equal_rows [of r s n f])
next
  case False
  with assms(1) have "s < r" by simp
  then show ?thesis using assms by (intro det_fun_equal_rows [of s r n f]) simp_all
qed

lemma det_fun_row_combination:
  assumes "s < n" "t \<le> s"
  shows "det_fun n (f(s := (\<lambda>c. a * f s c + (\<Sum>k < t. b k * f k c)))) = a * det_fun n f"
  using assms(2)
proof (induction t)
  case 0
  have "det_fun n (f(s := (\<lambda>c. a * f s c + 0 * f s c)))
        = a * det_fun n (f(s := f s)) + 0 * det_fun n (f(s := f s))"
    using assms(1) by (rule det_fun_row_linear)
  then have "det_fun n (f(s := (\<lambda>c. a * f s c))) = a * det_fun n f"
    by (simp only: mult_zero_left add_0_right fun_upd_triv)
  then show ?case
    by (simp only: lessThan_0 sum.empty add_0_right)
next
  case (Suc t)
  let ?G = "\<lambda>c. a * f s c + (\<Sum>k < t. b k * f k c)"
  have ts: "t \<noteq> s" "t < n" using Suc.prems assms(1) by simp_all
  have e0: "det_fun n (f(s := f t)) = 0"
    using ts assms(1) by (intro det_fun_two_equal_rows [of t s]) simp_all
  have e1: "det_fun n (f(s := (\<lambda>c. 1 * ?G c + b t * f t c)))
        = 1 * det_fun n (f(s := ?G)) + b t * det_fun n (f(s := f t))"
    using assms(1) by (rule det_fun_row_linear)
  have "t \<le> s" using Suc.prems by simp
  then have e2: "det_fun n (f(s := ?G)) = a * det_fun n f"
    by (rule Suc.IH)
  have e3: "(\<lambda>c. a * f s c + (\<Sum>k < Suc t. b k * f k c)) = (\<lambda>c. 1 * ?G c + b t * f t c)"
    by (simp add: fun_eq_iff)
  have "det_fun n (f(s := (\<lambda>c. a * f s c + (\<Sum>k < Suc t. b k * f k c))))
        = det_fun n (f(s := (\<lambda>c. 1 * ?G c + b t * f t c)))"
    by (simp only: e3)
  also have "\<dots> = 1 * det_fun n (f(s := ?G)) + b t * det_fun n (f(s := f t))"
    by (rule e1)
  also have "\<dots> = a * det_fun n f"
    by (simp only: e2 e0 mult_1 mult_zero_right add_0_right)
  finally show ?case .
qed

lemma det_fun_lower_rows_partial:
  assumes "m \<le> n"
  shows "det_fun n (\<lambda>i. if m \<le> i then lower_rows l g i else g i)
         = (\<Prod>i \<in> {m..<n}. l i i) * det_fun n g"
  using assms
proof (induction m rule: inc_induct)
  case base
  have "det_fun n (\<lambda>i. if n \<le> i then lower_rows l g i else g i) = det_fun n g"
    by (rule det_fun_cong) simp
  then show ?case by simp
next
  case (step m)
  let ?H = "\<lambda>i. if Suc m \<le> i then lower_rows l g i else g i"
  have "lower_rows l g m = (\<lambda>c. l m m * ?H m c + (\<Sum>k < m. l m k * ?H k c))"
    by (simp add: lower_rows_def fun_eq_iff lessThan_Suc_atMost [symmetric])
  then have "(\<lambda>i. if m \<le> i then lower_rows l g i else g i)
             = ?H(m := (\<lambda>c. l m m * ?H m c + (\<Sum>k < m. l m k * ?H k c)))"
    by (auto simp: fun_eq_iff)
  then have "det_fun n (\<lambda>i. if m \<le> i then lower_rows l g i else g i) = l m m * det_fun n ?H"
    using det_fun_row_combination [of m n m ?H "l m m" "l m"] step.hyps(2) by simp
  also have "\<dots> = l m m * ((\<Prod>i \<in> {Suc m..<n}. l i i) * det_fun n g)"
    by (simp only: step.IH)
  also have "\<dots> = (\<Prod>i \<in> {m..<n}. l i i) * det_fun n g"
    using step.hyps(2) by (simp add: prod.atLeast_Suc_lessThan)
  finally show ?case .
qed

lemma det_fun_lower_rows:
  "det_fun n (lower_rows l g) = (\<Prod>i < n. l i i) * det_fun n g"
  using det_fun_lower_rows_partial [of 0 n l g] by (simp add: atLeast0LessThan)

lemma det_fun_upper_triangular:
  "(\<And>r c. r < n \<Longrightarrow> c < r \<Longrightarrow> f r c = 0) \<Longrightarrow> det_fun n f = (\<Prod>i < n. f i i)"
proof (induction n arbitrary: f)
  case 0
  show ?case by simp
next
  case (Suc n)
  let ?t = "\<lambda>i. (- 1) ^ i * f i 0 * det_fun n (minor f i)"
  have "(\<Sum>i \<le> n. ?t i) = ?t 0 + (\<Sum>i \<in> {..n} - {0}. ?t i)"
    by (rule sum.remove) simp_all
  also have "(\<Sum>i \<in> {..n} - {0}. ?t i) = 0"
  proof (rule sum.neutral, rule ballI)
    fix i assume "i \<in> {..n} - {0}"
    then have "i < Suc n" "0 < i" by auto
    then have "f i 0 = 0" by (rule Suc.prems)
    then show "?t i = 0" by simp
  qed
  also have "det_fun n (minor f 0) = (\<Prod>i < n. minor f 0 i i)"
    by (rule Suc.IH) (simp add: minor_def skip_def Suc.prems)
  finally have "det_fun (Suc n) f = f 0 0 * (\<Prod>i < n. f (Suc i) (Suc i))"
    unfolding det_fun_Suc by (simp add: minor_def skip_def)
  then show ?case
    by (simp only: prod.lessThan_Suc_shift o_def)
qed

lemma det_cholesky_product:
  assumes "n_rows L = n" "n_cols L = n" "lower_triangular L"
    and "mat_mult L (trans_mat L) = Inr S"
  shows "det S = (\<Prod>i < n. elem L i i)\<^sup>2"
proof -
  define g where "g = (\<lambda>k c. elem L c k)"
  have dims: "n_rows S = n" "n_cols S = n"
    using assms(1,2,4) by (auto simp: mat_mult_Inr trans_mat_def)
  have "elem S r c = lower_rows (elem L) g r c" if rc: "r < n" "c < n" for r c
  proof -
    have "elem S r c = (\<Sum>k < n. elem L r k * elem (trans_mat L) k c)"
      using elem_mat_mult [OF assms(4), of r c] rc assms(1,2) by (simp add: trans_mat_def)
    also have "\<dots> = (\<Sum>k < n. elem L r k * elem L c k)"
      using rc assms(1,2) by (intro sum.cong refl) (simp add: trans_mat_def)
    also have "\<dots> = (\<Sum>k \<le> r. elem L r k * elem L c k)"
    proof (rule sum.mono_neutral_right)
      show "finite {..<n}" by simp
      show "{..r} \<subseteq> {..<n}" using rc(1) by auto
      show "\<forall>k \<in> {..<n} - {..r}. elem L r k * elem L c k = 0"
        using assms(1-3) rc(1) by (auto simp: lower_triangular_def)
    qed
    finally show ?thesis by (simp add: lower_rows_def g_def)
  qed
  then have "det_fun n (elem S) = det_fun n (lower_rows (elem L) g)"
    by (rule det_fun_cong)
  also have "\<dots> = (\<Prod>i < n. elem L i i) * det_fun n g"
    by (rule det_fun_lower_rows)
  also have "det_fun n g = (\<Prod>i < n. g i i)"
  proof (rule det_fun_upper_triangular)
    fix r c assume "r < n" "c < r"
    then show "g r c = 0"
      using assms(1-3) by (simp add: g_def lower_triangular_def)
  qed
  finally show ?thesis
    by (simp add: det_def dims g_def power2_eq_square)
qed

section \<open>The covariance matrix of a Cholesky factor\<close>

lemma dot_self: "dot z z = (\<Sum>v\<leftarrow>z. v\<^sup>2)"
  by (induction z) (simp_all add: power2_eq_square)

lemma dot_self_zero: "dot v v = 0 \<Longrightarrow> v = replicate (length v) 0"
proof (induction v)
  case Nil
  show ?case by simp
next
  case (Cons a v)
  have "0 \<le> dot v v" unfolding dot_self by (rule sum_list_nonneg) auto
  moreover have "0 \<le> a * a" by simp
  moreover have "a * a + dot v v = 0" using Cons.prems by simp
  ultimately have "a * a = 0" "dot v v = 0" by linarith+
  with Cons.IH show ?case by simp
qed

lemma trans_mat_sel [simp]:
  "n_rows (trans_mat A) = n_cols A" "n_cols (trans_mat A) = n_rows A"
  by (simp_all add: trans_mat_def)

lemma elem_trans_mat [simp]:
  "j < n_cols A \<Longrightarrow> i < n_rows A \<Longrightarrow> elem (trans_mat A) j i = elem A i j"
  by (simp add: trans_mat_def)

lemma dot_mat_vec_trans:
  assumes "length u = n_cols A" "length v = n_rows A"
  shows "dot (mat_vec A u) v = dot u (mat_vec (trans_mat A) v)"
proof -
  have "dot (mat_vec A u) v = (\<Sum>i < n_rows A. mat_vec A u ! i * v ! i)"
    using assms(2) dot_sum [of "mat_vec A u" v] by simp
  also have "\<dots> = (\<Sum>i < n_rows A. (\<Sum>j < n_cols A. elem A i j * u ! j) * v ! i)"
    using assms(1) by (intro sum.cong refl) (simp add: dot_sum)
  also have "\<dots> = (\<Sum>i < n_rows A. \<Sum>j < n_cols A. u ! j * (elem A i j * v ! i))"
    by (intro sum.cong refl) (simp add: sum_distrib_left sum_distrib_right mult_ac)
  also have "\<dots> = (\<Sum>j < n_cols A. \<Sum>i < n_rows A. u ! j * (elem A i j * v ! i))"
    by (rule sum.swap)
  also have "\<dots> = (\<Sum>j < n_cols A. u ! j * (\<Sum>i < n_rows A. elem (trans_mat A) j i * v ! i))"
    by (simp add: sum_distrib_left)
  also have "\<dots> = (\<Sum>j < n_cols A. u ! j * mat_vec (trans_mat A) v ! j)"
    using assms(2) by (intro sum.cong refl) (simp add: dot_sum)
  also have "\<dots> = dot u (mat_vec (trans_mat A) v)"
    using assms(1) dot_sum [of u "mat_vec (trans_mat A) v"] by simp
  finally show ?thesis .
qed

lemma inverse_of_length:
  "inverse_of A B \<Longrightarrow> length (mat_vec B x) = n_cols A"
  by (simp add: inverse_of_def mat_mult_Inr eye_def mk_mat_def)

lemma cholesky_product_nonsingular:
  assumes "n_rows L = n" "n_cols L = n" "inverse_of L B"
    and "mat_mult L (trans_mat L) = Inr S"
  shows "nonsingular S"
  unfolding nonsingular_def
proof (intro allI impI)
  fix v :: vec
  assume lv: "length v = n_cols S" and z: "mat_vec S v = replicate (n_rows S) 0"
  have dims: "n_rows S = n" "n_cols S = n"
    using assms(1,2,4) by (auto simp: mat_mult_Inr)
  have ns: "nonsingular L" using assms(3) by (rule inverse_nonsingular)
  let ?w = "mat_vec (trans_mat L) v"
  have "mat_vec L ?w = mat_vec S v"
    using mat_vec_mult [OF assms(4), of v] lv dims assms(1) by simp
  also have "\<dots> = mat_vec L (replicate n 0)"
    by (simp add: z dims mat_vec_zero assms(1))
  finally have w: "?w = replicate n 0"
    using ns assms(2) nonsingular_unique [of L ?w "replicate n 0"] by simp
  have "dot v v = dot (mat_vec L (mat_vec B v)) v"
    using inverse_solution [OF assms(3), of v] lv dims assms(1) by simp
  also have "\<dots> = dot (mat_vec B v) ?w"
    using inverse_of_length [OF assms(3), of v] lv dims assms(1)
    by (intro dot_mat_vec_trans) simp_all
  also have "\<dots> = 0"
    by (simp add: w)
  finally have "v = replicate (length v) 0"
    by (rule dot_self_zero)
  then show "v = replicate (n_cols S) 0"
    by (simp add: lv)
qed

lemma cholesky_quadratic_form:
  assumes "n_rows L = n" "n_cols L = n" "length x = n" "inverse_of L B"
    and "mat_mult L (trans_mat L) = Inr S" "inverse_of S T"
  shows "dot x (mat_vec T x) = (\<Sum>v\<leftarrow>mat_vec B x. v\<^sup>2)"
proof -
  have dims: "n_rows S = n" "n_cols S = n"
    using assms(1,2,5) by (auto simp: mat_mult_Inr)
  have ns: "nonsingular L" using assms(4) by (rule inverse_nonsingular)
  let ?y = "mat_vec T x"
  let ?z = "mat_vec B x"
  have ly: "length ?y = n"
    using inverse_of_length [OF assms(6), of x] dims by simp
  have lz: "length ?z = n"
    using inverse_of_length [OF assms(4), of x] assms(2) by simp
  have Lz: "mat_vec L ?z = x"
    using assms(1,3,4) by (intro inverse_solution) simp_all
  have "mat_vec L (mat_vec (trans_mat L) ?y) = mat_vec S ?y"
    using mat_vec_mult [OF assms(5), of ?y] ly assms(1) by simp
  also have "\<dots> = x"
    using assms(3,6) dims by (intro inverse_solution) simp_all
  finally have "mat_vec L (mat_vec (trans_mat L) ?y) = mat_vec L ?z"
    by (simp only: Lz)
  then have t: "mat_vec (trans_mat L) ?y = ?z"
    using ns lz assms(2) nonsingular_unique [of L "mat_vec (trans_mat L) ?y" ?z] by simp
  have "dot x ?y = dot (mat_vec L ?z) ?y"
    by (simp only: Lz)
  also have "\<dots> = dot ?z (mat_vec (trans_mat L) ?y)"
    using lz ly assms(1,2) by (intro dot_mat_vec_trans) simp_all
  also have "\<dots> = dot ?z ?z"
    by (simp only: t)
  finally show ?thesis
    by (simp only: dot_self)
qed

lemma sum_log_diag:
  assumes "\<forall>i < n. 0 < d i"
  shows "(\<Sum>i\<leftarrow>[0..<n]. ln (sqrt (2 * pi) * d i))
         = (real n * ln (2 * pi) + ln ((\<Prod>i < n. d i)\<^sup>2)) / 2"
proof -
  have p: "0 < (\<Prod>i < n. d i)"
    using assms by (intro prod_pos) simp
  have "(\<Sum>i\<leftarrow>[0..<n]. ln (sqrt (2 * pi) * d i)) = (\<Sum>i < n. ln (sqrt (2 * pi) * d i))"
    by (simp add: interv_sum_list_conv_sum_set_nat atLeast0LessThan)
  also have "\<dots> = (\<Sum>i < n. ln (2 * pi) / 2 + ln (d i))"
  proof (intro sum.cong refl)
    fix i assume "i \<in> {..<n}"
    with assms have "0 < d i" by simp
    moreover have "0 < sqrt (2 * pi)" by simp
    ultimately have "ln (sqrt (2 * pi) * d i) = ln (sqrt (2 * pi)) + ln (d i)"
      by (rule ln_mult_pos [rotated])
    then show "ln (sqrt (2 * pi) * d i) = ln (2 * pi) / 2 + ln (d i)"
      by (simp add: ln_sqrt)
  qed
  also have "\<dots> = real n * (ln (2 * pi) / 2) + (\<Sum>i < n. ln (d i))"
    by (simp add: sum.distrib)
  also have "(\<Sum>i < n. ln (d i)) = ln (\<Prod>i < n. d i)"
    using assms by (subst ln_prod) force+
  also have "ln (\<Prod>i < n. d i) = ln ((\<Prod>i < n. d i)\<^sup>2) / 2"
    using p by (simp add: ln_realpow)
  finally show ?thesis by (simp add: add_divide_distrib)
qed

text \<open>
  C8. For every \<open>n \<ge> 1\<close>, every lower triangular \<open>n\<close> by \<open>n\<close> matrix \<open>L\<close> with a positive
  diagonal and every \<open>x\<close> of length \<open>n\<close>, the matrix \<open>S = L * trans L\<close> has a positive
  determinant and an inverse, and with any inverse \<open>T\<close> of \<open>S\<close> ldmvnorm returns the
  closed form \<open>- (n * ln (2 pi) + ln (det S) + x \<bullet> T x) / 2\<close>.
\<close>

theorem ldmvnorm_closed_form:
  "1 \<le> n \<and> n_rows L = n \<and> n_cols L = n \<and> length x = n \<and> lower_triangular L
     \<and> (\<forall>i < n. 0 < elem L i i) \<and> mat_mult L (trans_mat L) = Inr S \<longrightarrow>
   0 < det S \<and> (\<exists>T. inverse_of S T)
     \<and> (\<forall>T. inverse_of S T \<longrightarrow>
           ldmvnorm x L
             = Inr (- (real n * ln (2 * pi) + ln (det S) + dot x (mat_vec T x)) / 2))"
proof (intro impI)
  assume h: "1 \<le> n \<and> n_rows L = n \<and> n_cols L = n \<and> length x = n \<and> lower_triangular L
     \<and> (\<forall>i < n. 0 < elem L i i) \<and> mat_mult L (trans_mat L) = Inr S"
  then have dims: "n_rows L = n" "n_cols L = n" "length x = n"
    and lt: "lower_triangular L" and pos: "\<forall>i < n. 0 < elem L i i"
    and S: "mat_mult L (trans_mat L) = Inr S"
    by simp_all
  have dS: "n_rows S = n" "n_cols S = n"
    using dims S by (auto simp: mat_mult_Inr)
  from pos have "\<forall>i < n. elem L i i \<noteq> 0" by fastforce
  then have "nonsingular L"
    using dims lt by (intro lower_triangular_nonsingular [of L n]) simp_all
  then obtain B where B: "inverse_of L B"
    using nonsingular_inverse [OF dims(1,2)] by blast
  have det: "det S = (\<Prod>i < n. elem L i i)\<^sup>2"
    using dims(1,2) lt S by (rule det_cholesky_product)
  have "0 < (\<Prod>i < n. elem L i i)"
    using pos by (intro prod_pos) simp
  then have "0 < (\<Prod>i < n. elem L i i)\<^sup>2"
    by (rule zero_less_power)
  then have dpos: "0 < det S"
    by (simp only: det)
  have "nonsingular S"
    using dims(1,2) B S by (rule cholesky_product_nonsingular)
  then have ex: "\<exists>T. inverse_of S T"
    using nonsingular_inverse [OF dS] by blast
  have val: "ldmvnorm x L
             = Inr (- (real n * ln (2 * pi) + ln (det S) + dot x (mat_vec T x)) / 2)"
    if T: "inverse_of S T" for T
  proof -
    have q: "dot x (mat_vec T x) = (\<Sum>v\<leftarrow>mat_vec B x. v\<^sup>2)"
      using dims B S T by (rule cholesky_quadratic_form)
    have "ldmvnorm x L
          = Inr (- (\<Sum>v\<leftarrow>mat_vec B x. v\<^sup>2) / 2
                 - (\<Sum>i\<leftarrow>[0..<n]. ln (sqrt (2 * pi) * elem L i i)))"
      using ldmvnorm_inverse [OF dims B pos] by simp
    also have "(\<Sum>i\<leftarrow>[0..<n]. ln (sqrt (2 * pi) * elem L i i))
               = (real n * ln (2 * pi) + ln (det S)) / 2"
      unfolding det using pos by (rule sum_log_diag)
    finally show ?thesis
      by (simp add: q diff_divide_distrib add_divide_distrib)
  qed
  from dpos ex val
  show "0 < det S \<and> (\<exists>T. inverse_of S T)
     \<and> (\<forall>T. inverse_of S T \<longrightarrow>
           ldmvnorm x L
             = Inr (- (real n * ln (2 * pi) + ln (det S) + dot x (mat_vec T x)) / 2))"
    by blast
qed

theorem ldmvnorm_closed_form_witness:
  "(1::nat) \<le> 2 \<and> n_rows (of_rows 2 2 [[2, 0], [1, 1]]) = 2
   \<and> n_cols (of_rows 2 2 [[2, 0], [1, 1]]) = 2 \<and> length [2, 3 :: real] = 2
   \<and> lower_triangular (of_rows 2 2 [[2, 0], [1, 1]])
   \<and> 0 < elem (of_rows 2 2 [[2, 0], [1, 1]]) 0 0
   \<and> 0 < elem (of_rows 2 2 [[2, 0], [1, 1]]) 1 1
   \<and> mat_mult (of_rows 2 2 [[2, 0], [1, 1]]) (trans_mat (of_rows 2 2 [[2, 0], [1, 1]]))
       = Inr (of_rows 2 2 [[4, 2], [2, 2]])
   \<and> det (of_rows 2 2 [[4, 2], [2, 2]]) = 4
   \<and> inverse_of (of_rows 2 2 [[4, 2], [2, 2]]) (of_rows 2 2 [[1/2, -1/2], [-1/2, 1]])
   \<and> ldmvnorm [2, 3] (of_rows 2 2 [[2, 0], [1, 1]])
       = Inr (- (2 * ln (2 * pi) + ln 4 + 5) / 2)"
proof -
  let ?L = "of_rows 2 2 [[2, 0], [1, 1]]"
  let ?S = "of_rows 2 2 [[4, 2], [2, 2]]"
  let ?T = "of_rows 2 2 [[1/2, -1/2], [-1/2, 1]]"
  have d: "n_rows ?L = 2" "n_cols ?L = 2" "length [2, 3 :: real] = 2"
    by (simp_all add: of_rows_def)
  have e: "elem ?L 0 0 = 2" "elem ?L 1 1 = 1" "elem ?L 0 1 = 0"
    by (simp_all add: of_rows_def)
  have p: "\<forall>i < 2. 0 < elem ?L i i"
    using e by (simp add: less_2_cases_iff)
  have t: "lower_triangular ?L"
    using e d by (auto simp: lower_triangular_def less_2_cases_iff)
  have S: "mat_mult ?L (trans_mat ?L) = Inr ?S" by code_simp
  have T: "inverse_of ?S ?T" by code_simp
  have dt: "det ?S = 4" by code_simp
  have q: "dot [2, 3] (mat_vec ?T [2, 3]) = 5" by code_simp
  from ldmvnorm_closed_form [of 2 ?L "[2, 3]" ?S] d p t S T
  have "ldmvnorm [2, 3] ?L
        = Inr (- (real 2 * ln (2 * pi) + ln (det ?S) + dot [2, 3] (mat_vec ?T [2, 3])) / 2)"
    by simp
  then have "ldmvnorm [2, 3] ?L = Inr (- (2 * ln (2 * pi) + ln 4 + 5) / 2)"
    by (simp only: dt q) simp
  with d e t S T dt show ?thesis by simp
qed

end
